theory Spec2Isabelle
  imports Main "HOL-Library.Word" "HOL-Library.Log_Nat"
begin

unbundle bit_operations_syntax

section \<open>Byte views and results (byte.h, coder.h)\<close>

text \<open>
  Modelled from the spec: the byte view \<open>bytes\<close> of byte.h (not among the sources), a
  non-owning, bounded window \<open>[begin, end)\<close> over bytes owned by the caller. The
  storage is a list of bytes, and a view holds the offsets of its two iterators into
  that storage. An iterator is an offset.
\<close>

type_synonym byte = "8 word"
type_synonym mem = "byte list"

record view =
  vbegin :: nat
  vend :: nat

definition vsize :: "view \<Rightarrow> nat" where
  "vsize s = vend s - vbegin s"

definition valid_view :: "view \<Rightarrow> mem \<Rightarrow> bool" where
  "valid_view s m \<longleftrightarrow> vbegin s \<le> vend s \<and> vend s \<le> length m"

text \<open>
  Dereferencing an iterator is defined only inside the view (and inside the storage);
  the unchecked mode performs the access anyway, which C++ leaves undefined.
\<close>

definition derefable :: "view \<Rightarrow> mem \<Rightarrow> nat \<Rightarrow> bool" where
  "derefable s m i \<longleftrightarrow> vbegin s \<le> i \<and> i < vend s \<and> i < length m"

text \<open>
  \<open>encode_result<is_safe>\<close> and \<open>decode_result<T, is_safe>\<close>: in safe mode an optional,
  \<open>Absent\<close> being the empty optional \<open>{}\<close>; in unsafe mode the raw value. \<open>Undefined\<close> is
  undefined behaviour of the C++ (an access outside the view, a shift by at least the
  width of the promoted operand), which the source never checks for.
\<close>

datatype 'a result = Undefined | Absent | Present 'a

text \<open>Modelled from the spec: \<open>begin_diff(a, b) = a.begin - b.begin\<close> (byte.h is not among
  the sources).\<close>

definition begin_diff :: "view \<Rightarrow> view \<Rightarrow> int" where
  "begin_diff a b = int (vbegin a) - int (vbegin b)"

section \<open>varint\_coder for unsigned T (varint.h)\<close>

text \<open>The do-while loop of \<open>encode\<close>; it returns the storage and the iterator.\<close>

function encode_loop :: "bool \<Rightarrow> 'a::len word \<Rightarrow> nat \<Rightarrow> view \<Rightarrow> mem \<Rightarrow> mem \<times> nat result" where
  "encode_loop is_safe n iter s m =
     (if is_safe \<and> iter = vend s then (m, Absent)
      else if \<not> derefable s m iter then (m, Undefined)
      else
        let m' = m[iter := 0x80 OR ucast n];
            n' = drop_bit 7 n;
            iter' = iter + 1
        in if n' \<noteq> 0 then encode_loop is_safe n' iter' s m' else (m', Present iter'))"
  by pat_completeness auto
termination
proof (relation "measure (\<lambda>(is_safe, n, iter, s, m). unat n)", goal_cases)
  case 1
  show ?case by simp
next
  case (2 is_safe n iter s m m' n' iter')
  have "unat (drop_bit 7 n) = unat n div 2 ^ 7"
    unfolding unat_drop_bit_eq by (simp add: drop_bit_eq_div)
  moreover have "unat n \<noteq> 0" using 2 by (auto simp: unat_eq_0)
  ultimately have "unat (drop_bit 7 n) < unat n" by simp
  then show ?case using 2 by simp
qed

declare encode_loop.simps [simp del]

definition encode :: "bool \<Rightarrow> 'a::len word \<Rightarrow> view \<Rightarrow> mem \<Rightarrow> mem \<times> view result" where
  "encode is_safe n s m =
     (case encode_loop is_safe n (vbegin s) s m of
        (m', Present iter) \<Rightarrow>
          (m'[iter - 1 := (m' ! (iter - 1)) AND 0x7F], Present \<lparr>vbegin = iter, vend = vend s\<rparr>)
      | (m', Absent) \<Rightarrow> (m', Absent)
      | (m', Undefined) \<Rightarrow> (m', Undefined))"

text \<open>
  \<open>static_cast<T>(x) << 7*i\<close>: the left operand is promoted (to \<open>int\<close>, 32 bits, when
  \<open>T\<close> is narrower), and the shift is defined only for a count below the width of the
  promoted type.
\<close>

definition shl_defined :: "'a::len word \<Rightarrow> nat \<Rightarrow> bool" where
  "shl_defined x k \<longleftrightarrow> k < max 32 LENGTH('a)"

text \<open>The while loop of \<open>decode\<close> together with the final read of the terminating byte.\<close>

function decode_loop :: "bool \<Rightarrow> view \<Rightarrow> mem \<Rightarrow> 'a::len word \<Rightarrow> nat \<Rightarrow> nat \<Rightarrow> ('a word \<times> view) result" where
  "decode_loop is_safe s m n iter i =
     (if \<not> derefable s m iter then Undefined
      else if drop_bit 7 (m ! iter) = 1 then
        (if \<not> shl_defined n (7 * i) then Undefined
         else
           let n' = n OR push_bit (7 * i) (ucast ((m ! iter) AND 0x7F));
               iter' = iter + 1;
               i' = i + 1
           in if is_safe \<and> iter' = vend s then Absent
              else decode_loop is_safe s m n' iter' i')
      else
        (if \<not> shl_defined n (7 * i) then Undefined
         else Present (n OR push_bit (7 * i) (ucast (m ! iter)),
                       \<lparr>vbegin = iter + 1, vend = vend s\<rparr>)))"
  by pat_completeness auto
termination
  by (relation "measure (\<lambda>(is_safe, s, m, n, iter, i). vend s - iter)")
     (auto simp: derefable_def)

declare decode_loop.simps [simp del]

definition decode :: "bool \<Rightarrow> view \<Rightarrow> mem \<Rightarrow> ('a::len word \<times> view) result" where
  "decode is_safe s m =
     (if is_safe \<and> vbegin s = vend s then Absent
      else decode_loop is_safe s m 0 (vbegin s) 0)"

section \<open>skipper for varint\_coder (skip.h)\<close>

function encode_skip :: "'a::len word \<Rightarrow> nat" where
  "encode_skip v = (let v' = drop_bit 7 v in if v' \<noteq> 0 then 1 + encode_skip v' else 1)"
  by pat_completeness auto
termination
proof (relation "measure unat", goal_cases)
  case 1
  show ?case by simp
next
  case (2 v v')
  have "unat (drop_bit 7 v) = unat v div 2 ^ 7"
    unfolding unat_drop_bit_eq by (simp add: drop_bit_eq_div)
  moreover have "unat v \<noteq> 0" using 2 by (auto simp: unat_eq_0)
  ultimately have "unat (drop_bit 7 v) < unat v" by simp
  then show ?case using 2 by simp
qed

declare encode_skip.simps [simp del]

text \<open>\<open>skipper<varint_coder<T>>::decode_skip\<close>: \<open>while((*iter++ >> 7) == 1_b)\<close>.\<close>

function decode_skip_loop :: "bool \<Rightarrow> view \<Rightarrow> mem \<Rightarrow> nat \<Rightarrow> view result" where
  "decode_skip_loop is_safe b m iter =
     (if \<not> derefable b m iter then Undefined
      else
        let continues = (drop_bit 7 (m ! iter) = 1);
            iter' = iter + 1
        in if continues then
             (if is_safe \<and> iter' = vend b then Absent
              else decode_skip_loop is_safe b m iter')
           else Present \<lparr>vbegin = iter', vend = vend b\<rparr>)"
  by pat_completeness auto
termination
  by (relation "measure (\<lambda>(is_safe, b, m, iter). vend b - iter)")
     (auto simp: derefable_def)

declare decode_skip_loop.simps [simp del]

definition decode_skip :: "bool \<Rightarrow> view \<Rightarrow> mem \<Rightarrow> view result" where
  "decode_skip is_safe b m =
     (if is_safe \<and> vbegin b = vend b then Absent
      else decode_skip_loop is_safe b m (vbegin b))"

text \<open>
  \<open>skipper<integer_coder<T>>::decode_skip\<close>: \<open>sizeof(T)\<close> bytes are skipped.
  \<open>b.subspan<sizeof(T)>()\<close> on a shorter view is undefined.
\<close>

definition sizeof :: "'a::len itself \<Rightarrow> nat" where
  "sizeof T = LENGTH('a) div 8"

definition integer_decode_skip :: "'a::len itself \<Rightarrow> bool \<Rightarrow> view \<Rightarrow> view result" where
  "integer_decode_skip T is_safe b =
     (if is_safe \<and> vsize b < sizeof T then Absent
      else if vsize b < sizeof T then Undefined
      else Present \<lparr>vbegin = vbegin b + sizeof T, vend = vend b\<rparr>)"

section \<open>varint\_coder for signed T (varint.h)\<close>

text \<open>
  The signed coder passes its argument to the coder of \<open>std::make_unsigned_t<T>\<close>, the
  unsigned type of the same width; the conversion is the value modulo \<open>2 ^ width\<close>.
\<close>

definition signed_encode :: "'a::len itself \<Rightarrow> bool \<Rightarrow> int \<Rightarrow> view \<Rightarrow> mem \<Rightarrow> mem \<times> view result" where
  "signed_encode T is_safe n s m = encode is_safe (word_of_int n :: 'a word) s m"

definition signed_encode_skip :: "'a::len itself \<Rightarrow> int \<Rightarrow> nat" where
  "signed_encode_skip T v = encode_skip (word_of_int v :: 'a word)"

section \<open>enum\_coder and its skipper (enum.h, skip.h)\<close>

text \<open>
  A value of an enumeration type is held as the value of its underlying type \<open>'a word\<close>,
  which is what \<open>static_cast<std::underlying_type_t<T>>\<close> gives.
\<close>

definition enum_encode :: "bool \<Rightarrow> 'a::len word \<Rightarrow> view \<Rightarrow> mem \<Rightarrow> mem \<times> view result" where
  "enum_encode is_safe i b m = encode is_safe i b m"

definition enum_decode :: "bool \<Rightarrow> view \<Rightarrow> mem \<Rightarrow> ('a::len word \<times> view) result" where
  "enum_decode is_safe b m =
     (case decode is_safe b m of
        Present (v, r) \<Rightarrow> Present (v, r)
      | Absent \<Rightarrow> Absent
      | Undefined \<Rightarrow> Undefined)"

definition enum_encode_skip :: "'a::len word \<Rightarrow> nat" where
  "enum_encode_skip v = encode_skip v"

definition enum_decode_skip :: "'a::len itself \<Rightarrow> bool \<Rightarrow> view \<Rightarrow> view result" where
  "enum_decode_skip T is_safe b = integer_decode_skip T is_safe b"

section \<open>array\_coder (array.h)\<close>

text \<open>
  The template parameter \<open>C\<close>: a coder with its static members \<open>encode\<close>, \<open>decode\<close> and
  the \<open>encode_skip\<close> of its skipper. The range \<open>R\<close> is a list of values. \<open>uint<8>\<close>
  (int.h, not among the sources) is the unsigned integer of 8 bytes, the \<open>u64\<close> of the
  spec's \<open>varint<u64>(L)\<close>; \<open>std::size_t\<close> has 64 bits too.
\<close>

record 'v coder =
  c_encode :: "bool \<Rightarrow> 'v \<Rightarrow> view \<Rightarrow> mem \<Rightarrow> mem \<times> view result"
  c_decode :: "bool \<Rightarrow> view \<Rightarrow> mem \<Rightarrow> ('v \<times> view) result"
  c_encode_skip :: "'v \<Rightarrow> nat"

definition varint_coder :: "'a::len word coder" where
  "varint_coder = \<lparr>c_encode = encode, c_decode = decode, c_encode_skip = encode_skip\<rparr>"

text \<open>The first loop of \<open>encode\<close> and of \<open>encode_skip\<close>: \<open>uint<8> n = 0; n += encode_skip(i)\<close>.\<close>

definition sum_encode_skip :: "'v coder \<Rightarrow> 'v list \<Rightarrow> 64 word" where
  "sum_encode_skip C con = fold (\<lambda>i n. n + of_nat (c_encode_skip C i)) con 0"

text \<open>The second loop of \<open>encode\<close>: each element is encoded into what the previous left.\<close>

fun encode_elems :: "bool \<Rightarrow> 'v coder \<Rightarrow> 'v list \<Rightarrow> view \<Rightarrow> mem \<Rightarrow> mem \<times> view result" where
  "encode_elems is_safe C [] safe_b m = (m, Present safe_b)"
| "encode_elems is_safe C (i # con) safe_b m =
     (case c_encode C is_safe i safe_b m of
        (m', Present safe_b') \<Rightarrow> encode_elems is_safe C con safe_b' m'
      | (m', Absent) \<Rightarrow> (m', Absent)
      | (m', Undefined) \<Rightarrow> (m', Undefined))"

definition array_encode :: "bool \<Rightarrow> 'v coder \<Rightarrow> 'v list \<Rightarrow> view \<Rightarrow> mem \<Rightarrow> mem \<times> view result" where
  "array_encode is_safe C con b m =
     (let n = sum_encode_skip C con
      in case encode is_safe n b m of
           (m', Present safe_b) \<Rightarrow> encode_elems is_safe C con safe_b m'
         | (m', Absent) \<Rightarrow> (m', Absent)
         | (m', Undefined) \<Rightarrow> (m', Undefined))"

definition array_encode_skip :: "'v coder \<Rightarrow> 'v list \<Rightarrow> nat" where
  "array_encode_skip C con =
     (let n = sum_encode_skip C con;
          n' = n + of_nat (encode_skip n)
      in unat n')"

text \<open>
  The loop of \<open>decode\<close>: \<open>while(begin_diff(b, origin_b) < len)\<close>, the difference being
  converted to the unsigned 64-bit type of \<open>len\<close>. Nothing makes an element decoder
  advance, so the loop need not end: \<open>None\<close> is a run that never returns.
\<close>

partial_function (option) array_decode_loop ::
  "bool \<Rightarrow> 'v coder \<Rightarrow> mem \<Rightarrow> view \<Rightarrow> 64 word \<Rightarrow> view \<Rightarrow> 'v list \<Rightarrow> ('v list \<times> view) result option" where
  "array_decode_loop is_safe C m origin_b len b con =
     (if (word_of_int (begin_diff b origin_b) :: 64 word) < len then
        (case c_decode C is_safe b m of
           Present (v, b') \<Rightarrow> array_decode_loop is_safe C m origin_b len b' (con @ [v])
         | Absent \<Rightarrow> Some Absent
         | Undefined \<Rightarrow> Some Undefined)
      else Some (Present (con, b)))"

declare array_decode_loop.simps [code]

definition array_decode :: "bool \<Rightarrow> 'v coder \<Rightarrow> view \<Rightarrow> mem \<Rightarrow> ('v list \<times> view) result option" where
  "array_decode is_safe C b m =
     (case (decode is_safe b m :: (64 word \<times> view) result) of
        Present (len, b') \<Rightarrow> array_decode_loop is_safe C m b' len b' []
      | Absent \<Rightarrow> Some Absent
      | Undefined \<Rightarrow> Some Undefined)"

section \<open>The wire format, as the specification words it\<close>

text \<open>
  Groups of 7 bits, least significant first, the continuation bit \<open>0x80\<close> set on all
  but the last byte.
\<close>

function varint_bytes :: "'a::len word \<Rightarrow> byte list" where
  "varint_bytes n =
     (if drop_bit 7 n = 0 then [ucast (take_bit 7 n)]
      else (0x80 OR ucast (take_bit 7 n)) # varint_bytes (drop_bit 7 n))"
  by pat_completeness auto
termination
proof (relation "measure unat", goal_cases)
  case 1
  show ?case by simp
next
  case (2 n)
  have "unat (drop_bit 7 n) = unat n div 2 ^ 7"
    unfolding unat_drop_bit_eq by (simp add: drop_bit_eq_div)
  moreover have "unat n \<noteq> 0" using 2 by (auto simp: unat_eq_0)
  ultimately have "unat (drop_bit 7 n) < unat n" by simp
  then show ?case using 2 by simp
qed

declare varint_bytes.simps [simp del]

text \<open>The continuation bit of a byte, as the loops test it.\<close>

definition msb_set :: "byte \<Rightarrow> bool" where
  "msb_set x \<longleftrightarrow> drop_bit 7 x = 1"

text \<open>The storage \<open>m\<close> with the bytes \<open>bs\<close> written from offset \<open>p\<close> on.\<close>

definition write_at :: "nat \<Rightarrow> byte list \<Rightarrow> mem \<Rightarrow> mem" where
  "write_at p bs m = take p m @ bs @ drop (p + length bs) m"

text \<open>The remainder \<open>r\<close> is a suffix of the view \<open>s\<close>.\<close>

definition suffix_of :: "view \<Rightarrow> view \<Rightarrow> bool" where
  "suffix_of r s \<longleftrightarrow> vend r = vend s \<and> vbegin s \<le> vbegin r \<and> vbegin r \<le> vend r"

text \<open>
  What \<open>array_coder\<close> relies on in its element coder \<open>C\<close>. The contract of \<open>encode\<close> in
  coder.h: on a view that holds them, the bytes of \<open>v\<close> are written at its begin and
  the rest of the view is returned; \<open>encode_skip\<close> is their number. The contract of
  \<open>decode\<close>: the bytes left are the end of the view.
\<close>

definition coder_writes :: "'v coder \<Rightarrow> ('v \<Rightarrow> byte list) \<Rightarrow> bool" where
  "coder_writes C bytes_of \<longleftrightarrow>
     (\<forall>is_safe v s m. valid_view s m \<and> length (bytes_of v) \<le> vsize s \<longrightarrow>
        c_encode C is_safe v s m =
          (write_at (vbegin s) (bytes_of v) m,
           Present \<lparr>vbegin = vbegin s + length (bytes_of v), vend = vend s\<rparr>)) \<and>
     (\<forall>v. c_encode_skip C v = length (bytes_of v))"

definition decodes_suffix :: "'v coder \<Rightarrow> bool" where
  "decodes_suffix C \<longleftrightarrow>
     (\<forall>s m v r. c_decode C True s m = Present (v, r) \<longrightarrow> suffix_of r s)"

text \<open>
  The run of the loop of \<open>array_coder::decode\<close> in safe mode, as a relation: from the
  view \<open>b0\<close> left by a length prefix \<open>len\<close>, the loop has come to the view \<open>b\<close> with
  the elements \<open>con\<close> decoded. An element is started only while fewer than \<open>len\<close> bytes
  are consumed, and the run goes on only through a present result.
\<close>

inductive steps :: "'v coder \<Rightarrow> mem \<Rightarrow> view \<Rightarrow> 64 word \<Rightarrow> view \<Rightarrow> 'v list \<Rightarrow> bool"
  for C :: "'v coder" and m :: mem and b0 :: view and len :: "64 word" where
  start: "steps C m b0 len b0 []"
| element: "steps C m b0 len b con \<Longrightarrow>
     (word_of_int (begin_diff b b0) :: 64 word) < len \<Longrightarrow>
     c_decode C True b m = Present (v, b') \<Longrightarrow>
     steps C m b0 len b' (con @ [v])"

code_pred steps .

section \<open>Bits and bytes\<close>

lemma x7F: "(0x7F :: byte) = mask 7" by (simp add: mask_eq_exp_minus_1)

lemma bit_128_int: "bit (128 :: int) k \<longleftrightarrow> k = 7"
proof -
  have "bit (2 ^ 7 :: int) k \<longleftrightarrow> k = 7" unfolding bit_exp_iff by auto
  then show ?thesis by simp
qed

lemma clear_msb: "(0x80 OR ucast (n :: 'a :: len word) :: byte) AND 0x7F = ucast (take_bit 7 n)"
  unfolding x7F by (rule bit_eqI) (auto simp: bit_simps bit_128_int)

lemma cont_byte_msb: "drop_bit 7 (0x80 OR ucast (take_bit 7 (n :: 'a :: len word)) :: byte) = 1"
  unfolding x7F by (rule bit_eqI) (auto simp: bit_simps bit_128_int)

lemma last_byte_msb: "drop_bit 7 (ucast (take_bit 7 (n :: 'a :: len word)) :: byte) \<noteq> 1"
proof
  assume "drop_bit 7 (ucast (take_bit 7 n) :: byte) = 1"
  then have "bit (drop_bit 7 (ucast (take_bit 7 n) :: byte)) 0" by simp
  then show False by (simp add: bit_simps)
qed

lemma set_msb_low7: "(0x80 OR ucast (n :: 'a :: len word) :: byte) = 0x80 OR ucast (take_bit 7 n)"
  unfolding x7F by (rule bit_eqI) (auto simp: bit_simps bit_128_int)

lemma cont_byte_payload:
  "ucast ((0x80 OR ucast (take_bit 7 (n :: 'a :: len word)) :: byte) AND 0x7F) = take_bit 7 n"
  unfolding x7F by (rule bit_eqI) (auto simp: bit_simps bit_128_int)

lemma last_byte_payload: "ucast (ucast (take_bit 7 (n :: 'a :: len word)) :: byte) = take_bit 7 n"
  by (rule bit_eqI) (auto simp: bit_simps)

lemma take_bit_7_id: "drop_bit 7 n = 0 \<Longrightarrow> take_bit 7 n = (n :: 'a :: len word)"
  by (metis bits_ident push_bit_of_0 add_0)

lemma take_bit_extend:
  "take_bit k v OR push_bit k (take_bit 7 (drop_bit k v)) = take_bit (k + 7) (v :: 'a :: len word)"
  by (rule bit_eqI) (auto simp: bit_simps)

lemma take_drop_bit_join: "take_bit k v OR push_bit k (drop_bit k v) = (v :: 'a :: len word)"
proof (rule bit_eqI)
  fix n
  show "bit (take_bit k v OR push_bit k (drop_bit k v)) n = bit v n"
    by (cases "n < k") (auto simp: bit_simps dest: bit_imp_le_length)
qed

lemma drop_bit_nonzero_width: "drop_bit k v \<noteq> 0 \<Longrightarrow> k < LENGTH('a)" for v :: "'a::len word"
  using drop_bit_word_beyond linorder_le_less_linear by blast

lemma drop_bit_7_zero_iff: "drop_bit 7 v = 0 \<longleftrightarrow> unat v < 128" for v :: "'a::len word"
proof -
  have "unat (drop_bit 7 v) = unat v div 2 ^ 7"
    unfolding unat_drop_bit_eq by (simp add: drop_bit_eq_div)
  then have "unat (drop_bit 7 v) = 0 \<longleftrightarrow> unat v < 128" by (simp add: div_eq_0_iff)
  then show ?thesis by (simp only: unat_eq_0)
qed

lemma bitlen_div_pow2:
  fixes x :: int
  shows "2 ^ k \<le> x \<Longrightarrow> bitlen x = bitlen (x div 2 ^ k) + int k"
proof (induction k arbitrary: x)
  case 0
  then show ?case by simp
next
  case (Suc k)
  have pos: "0 < x" using Suc.prems by (smt (verit) zero_less_power)
  have "2 ^ k \<le> x div 2" using Suc.prems by simp
  then have "bitlen (x div 2) = bitlen (x div 2 div 2 ^ k) + int k" by (rule Suc.IH)
  moreover have "bitlen x = bitlen (x div 2) + 1"
    using pos by (subst compute_bitlen) simp
  moreover have "x div 2 div 2 ^ k = x div 2 ^ Suc k"
    by (simp add: zdiv_zmult2_eq)
  ultimately show ?case by simp
qed

lemma bitlen_div_128:
  fixes x :: int
  assumes "128 \<le> x"
  shows "bitlen x = bitlen (x div 128) + 7"
proof -
  have "(2::int) ^ 7 \<le> x" using assms by simp
  then have "bitlen x = bitlen (x div 2 ^ 7) + int 7" by (rule bitlen_div_pow2)
  moreover have "(2::int) ^ 7 = 128" by simp
  ultimately show ?thesis by (simp only: of_nat_numeral)
qed

lemma bitlen_below_128:
  fixes x :: int
  assumes "x < 128"
  shows "bitlen x \<le> 7"
proof (cases "0 < x")
  case True
  from bitlen_bounds [OF True] have "(2::int) ^ nat (bitlen x - 1) \<le> x" by simp
  also have "x < 2 ^ 7" using assms by simp
  finally have "nat (bitlen x - 1) < 7" by (rule power_less_imp_less_exp [rotated]) simp
  then show ?thesis by simp
next
  case False
  then have "bitlen x = 0" by (simp add: bitlen_eq_zero_iff)
  then show ?thesis by simp
qed

lemma nth_middle: "i < length ys \<Longrightarrow> (xs @ ys @ zs) ! (length xs + i) = ys ! i"
  by (simp add: nth_append)

lemma update_middle:
  "i < length ys \<Longrightarrow> (xs @ ys @ zs)[length xs + i := x] = xs @ ys[i := x] @ zs"
  by (simp add: list_update_append)

section \<open>What encode writes\<close>

lemma encode_skip_pos: "0 < encode_skip n"
  by (subst encode_skip.simps) (simp add: Let_def)

lemma length_varint_bytes: "length (varint_bytes n) = encode_skip n"
proof (induction n rule: varint_bytes.induct)
  case (1 n)
  show ?case
  proof (cases "drop_bit 7 n = 0")
    case True
    then show ?thesis
      by (subst varint_bytes.simps, subst encode_skip.simps) simp
  next
    case False
    with 1 show ?thesis
      by (subst varint_bytes.simps, subst encode_skip.simps) (simp add: Let_def)
  qed
qed

text \<open>What the do-while loop leaves in the storage: every byte has its MSB set.\<close>

lemma encode_loop_writes:
  assumes "vbegin s \<le> iter" and "iter + encode_skip n \<le> vend s" and "vend s \<le> length m"
  shows "encode_loop is_safe n iter s m =
           (take iter m @ map (\<lambda>x. 0x80 OR x) (varint_bytes n) @ drop (iter + encode_skip n) m,
            Present (iter + encode_skip n))"
  using assms
proof (induction is_safe n iter s m rule: encode_loop.induct)
  case (1 is_safe n iter s m)
  have pos: "0 < encode_skip n" by (rule encode_skip_pos)
  have lt: "iter < vend s" "iter < length m" using "1.prems" pos by auto
  then have d: "derefable s m iter" using "1.prems" by (simp add: derefable_def)
  have byte: "(0x80 OR ucast n :: byte) = 0x80 OR (0x80 OR ucast (take_bit 7 n))"
    by (subst set_msb_low7) (simp add: or.assoc [symmetric])
  show ?case
  proof (cases "drop_bit 7 n = 0")
    case True
    have k: "encode_skip n = 1" using True by (subst encode_skip.simps) simp
    have b: "varint_bytes n = [ucast (take_bit 7 n)]" using True by (subst varint_bytes.simps) simp
    have "m[iter := 0x80 OR ucast n] = take iter m @ [0x80 OR ucast n] @ drop (iter + 1) m"
      using lt by (simp add: upd_conv_take_nth_drop)
    then show ?thesis
      using lt d True k b set_msb_low7 [of n]
      by (subst encode_loop.simps) (simp add: Let_def)
  next
    case False
    have k: "encode_skip n = 1 + encode_skip (drop_bit 7 n)"
      using False by (subst encode_skip.simps) (simp add: Let_def)
    have b: "varint_bytes n = (0x80 OR ucast (take_bit 7 n)) # varint_bytes (drop_bit 7 n)"
      using False by (subst varint_bytes.simps) simp
    let ?m' = "m[iter := 0x80 OR ucast n]"
    have IH: "encode_loop is_safe (drop_bit 7 n) (iter + 1) s ?m' =
           (take (iter + 1) ?m' @ map (\<lambda>x. 0x80 OR x) (varint_bytes (drop_bit 7 n))
              @ drop (iter + 1 + encode_skip (drop_bit 7 n)) ?m',
            Present (iter + 1 + encode_skip (drop_bit 7 n)))"
      using "1.prems" k lt d False
      by (intro "1.IH") (auto simp: Let_def)
    have t: "take (iter + 1) ?m' = take iter m @ [0x80 OR ucast n]"
      using lt by (simp add: take_Suc_conv_app_nth)
    have dr: "drop (iter + 1 + encode_skip (drop_bit 7 n)) ?m' = drop (iter + encode_skip n) m"
      using k by simp
    have "encode_loop is_safe n iter s m = encode_loop is_safe (drop_bit 7 n) (iter + 1) s ?m'"
      using lt d False by (subst encode_loop.simps) (simp add: Let_def)
    then show ?thesis
      unfolding IH t dr using k b byte by (simp add: add.assoc)
  qed
qed

lemma clear_last_msb:
  "(map (\<lambda>x. 0x80 OR x) (varint_bytes n))
     [encode_skip n - 1 := (map (\<lambda>x. 0x80 OR x) (varint_bytes n) ! (encode_skip n - 1)) AND 0x7F]
   = varint_bytes n"
proof (induction n rule: varint_bytes.induct)
  case (1 n)
  show ?case
  proof (cases "drop_bit 7 n = 0")
    case True
    have k: "encode_skip n = 1" using True by (subst encode_skip.simps) simp
    have b: "varint_bytes n = [ucast (take_bit 7 n)]" using True by (subst varint_bytes.simps) simp
    have "(0x80 OR ucast (take_bit 7 n) :: byte) AND 0x7F = ucast (take_bit 7 n)"
      using clear_msb [of "take_bit 7 n"] by simp
    then show ?thesis by (simp add: k b)
  next
    case False
    have k: "encode_skip n = 1 + encode_skip (drop_bit 7 n)"
      using False by (subst encode_skip.simps) (simp add: Let_def)
    have b: "varint_bytes n = (0x80 OR ucast (take_bit 7 n)) # varint_bytes (drop_bit 7 n)"
      using False by (subst varint_bytes.simps) simp
    obtain j where j: "encode_skip (drop_bit 7 n) = Suc j"
      using encode_skip_pos [of "drop_bit 7 n"] by (cases "encode_skip (drop_bit 7 n)") auto
    show ?thesis
      using "1.IH" [OF False] by (simp add: k b j or.assoc [symmetric])
  qed
qed

text \<open>\<open>encode\<close> on a view that holds the encoding, in either mode.\<close>

lemma encode_sufficient:
  assumes "valid_view s m" and "encode_skip n \<le> vsize s"
  shows "encode is_safe n s m =
           (write_at (vbegin s) (varint_bytes n) m,
            Present \<lparr>vbegin = vbegin s + encode_skip n, vend = vend s\<rparr>)"
proof -
  let ?k = "encode_skip n" and ?b = "vbegin s"
  let ?raw = "map (\<lambda>x. 0x80 OR x) (varint_bytes n)"
  have pos: "0 < ?k" by (rule encode_skip_pos)
  have bounds: "?b + ?k \<le> vend s" "vend s \<le> length m"
    using assms by (auto simp: valid_view_def vsize_def)
  have loop: "encode_loop is_safe n ?b s m = (take ?b m @ ?raw @ drop (?b + ?k) m, Present (?b + ?k))"
    using bounds by (intro encode_loop_writes) auto
  have len: "length (take ?b m) = ?b" using bounds by simp
  have lraw: "length ?raw = ?k" by (simp add: length_varint_bytes)
  have idx: "?b + ?k - 1 = length (take ?b m) + (?k - 1)" using pos len by simp
  have nth: "(take ?b m @ ?raw @ drop (?b + ?k) m) ! (?b + ?k - 1) = ?raw ! (?k - 1)"
    unfolding idx by (rule nth_middle) (use pos lraw in simp)
  have upd: "(take ?b m @ ?raw @ drop (?b + ?k) m)[?b + ?k - 1 := x]
               = take ?b m @ ?raw[?k - 1 := x] @ drop (?b + ?k) m" for x
    unfolding idx by (rule update_middle) (use pos lraw in simp)
  show ?thesis
    unfolding encode_def loop write_at_def length_varint_bytes
    by (simp only: prod.case result.case nth upd clear_last_msb)
qed

section \<open>What decode reads\<close>

lemma encode_skip_last: "drop_bit 7 n = 0 \<Longrightarrow> encode_skip n = 1"
  by (subst encode_skip.simps) (simp add: Let_def)

lemma encode_skip_more: "drop_bit 7 n \<noteq> 0 \<Longrightarrow> encode_skip n = 1 + encode_skip (drop_bit 7 n)"
  by (subst encode_skip.simps) (simp add: Let_def)

lemma varint_bytes_last: "drop_bit 7 n = 0 \<Longrightarrow> varint_bytes n = [ucast (take_bit 7 n)]"
  by (subst varint_bytes.simps) simp

lemma varint_bytes_more:
  "drop_bit 7 n \<noteq> 0 \<Longrightarrow>
   varint_bytes n = (0x80 OR ucast (take_bit 7 n)) # varint_bytes (drop_bit 7 n)"
  by (subst varint_bytes.simps) simp

lemma shl_defined_group:
  fixes v acc :: "'a::len word"
  assumes "i = 0 \<or> drop_bit (7 * i) v \<noteq> 0"
  shows "shl_defined acc (7 * i)"
proof -
  have "7 * i < LENGTH('a)"
    using assms drop_bit_nonzero_width [of "7 * i" v] by auto
  then show ?thesis by (simp add: shl_defined_def)
qed

text \<open>
  The loop of \<open>decode\<close>, started at group \<open>i\<close> of \<open>v\<close> with the lower groups
  accumulated, on storage that holds the encoding of the remaining groups.
\<close>

lemma decode_loop_reads:
  fixes v :: "'a::len word"
  assumes "vbegin s \<le> iter" and "iter + encode_skip x \<le> vend s" and "vend s \<le> length m"
    and "\<forall>j < encode_skip x. m ! (iter + j) = varint_bytes x ! j"
    and "x = drop_bit (7 * i) v" and "acc = take_bit (7 * i) v" and "i = 0 \<or> x \<noteq> 0"
  shows "decode_loop is_safe s m acc iter i =
           Present (v, \<lparr>vbegin = iter + encode_skip x, vend = vend s\<rparr>)"
  using assms
proof (induction x arbitrary: acc iter i rule: varint_bytes.induct)
  case (1 x)
  have pos: "0 < encode_skip x" by (rule encode_skip_pos)
  have d: "derefable s m iter" using "1.prems" pos by (simp add: derefable_def)
  have sh: "shl_defined acc (7 * i)"
    using "1.prems"(5,7) by (intro shl_defined_group [of i v]) auto
  from "1.prems"(4) pos have first: "m ! iter = varint_bytes x ! 0" by force
  show ?case
  proof (cases "drop_bit 7 x = 0")
    case True
    have k: "encode_skip x = 1" using True by (rule encode_skip_last)
    have byte: "m ! iter = ucast (take_bit 7 x)"
      using first by (simp add: varint_bytes_last [OF True])
    have stop: "drop_bit 7 (m ! iter) \<noteq> 1" unfolding byte by (rule last_byte_msb)
    have "ucast (m ! iter) = x"
      unfolding byte last_byte_payload by (rule take_bit_7_id [OF True])
    then have "acc OR push_bit (7 * i) (ucast (m ! iter)) = v"
      using "1.prems"(5,6) by (simp only: take_drop_bit_join)
    then show ?thesis
      using d sh stop k by (subst decode_loop.simps) simp
  next
    case False
    have k: "encode_skip x = 1 + encode_skip (drop_bit 7 x)" using False by (rule encode_skip_more)
    have b: "varint_bytes x = (0x80 OR ucast (take_bit 7 x)) # varint_bytes (drop_bit 7 x)"
      using False by (rule varint_bytes_more)
    have byte: "m ! iter = 0x80 OR ucast (take_bit 7 x)" using first b by simp
    have go: "drop_bit 7 (m ! iter) = 1" unfolding byte by (rule cont_byte_msb)
    have "ucast ((m ! iter) AND 0x7F) = take_bit 7 x" unfolding byte by (rule cont_byte_payload)
    then have acc': "acc OR push_bit (7 * i) (ucast ((m ! iter) AND 0x7F)) = take_bit (7 * (i + 1)) v"
      using "1.prems"(5,6) take_bit_extend [of "7 * i" v] by (simp add: algebra_simps)
    have x': "drop_bit 7 x = drop_bit (7 * (i + 1)) v"
      using "1.prems"(5) by (simp add: algebra_simps)
    have more: "0 < encode_skip (drop_bit 7 x)" by (rule encode_skip_pos)
    have noend: "iter + 1 \<noteq> vend s" using "1.prems"(2) k more by simp
    have rest: "\<forall>j < encode_skip (drop_bit 7 x). m ! (iter + 1 + j) = varint_bytes (drop_bit 7 x) ! j"
    proof (intro allI impI)
      fix j assume "j < encode_skip (drop_bit 7 x)"
      then have "Suc j < encode_skip x" using k by simp
      with "1.prems"(4) have "m ! (iter + Suc j) = varint_bytes x ! Suc j" by blast
      then show "m ! (iter + 1 + j) = varint_bytes (drop_bit 7 x) ! j" by (simp add: b)
    qed
    have IH: "decode_loop is_safe s m (take_bit (7 * (i + 1)) v) (iter + 1) (i + 1) =
           Present (v, \<lparr>vbegin = iter + 1 + encode_skip (drop_bit 7 x), vend = vend s\<rparr>)"
      using False "1.prems"(1,2,3) k rest x'
      by (intro "1.IH") auto
    have "decode_loop is_safe s m acc iter i =
            decode_loop is_safe s m (take_bit (7 * (i + 1)) v) (iter + 1) (i + 1)"
      using d sh go noend acc' by (subst decode_loop.simps) (simp add: Let_def)
    then show ?thesis unfolding IH using k by (simp add: add.assoc)
  qed
qed

lemma nth_write_at:
  assumes "p + length bs \<le> length m" and "j < length bs"
  shows "write_at p bs m ! (p + j) = bs ! j"
proof -
  have "length (take p m) = p" using assms by simp
  then have "(take p m @ bs @ drop (p + length bs) m) ! (p + j)
               = (take p m @ bs @ drop (p + length bs) m) ! (length (take p m) + j)" by simp
  also have "\<dots> = bs ! j" using assms(2) by (rule nth_middle)
  finally show ?thesis by (simp add: write_at_def)
qed

lemma length_write_at: "p + length bs \<le> length m \<Longrightarrow> length (write_at p bs m) = length m"
  by (simp add: write_at_def)

lemma decode_written:
  fixes v :: "'a::len word"
  assumes "valid_view s m" and "encode_skip v \<le> vsize s"
  shows "decode is_safe s (write_at (vbegin s) (varint_bytes v) m) =
           Present (v, \<lparr>vbegin = vbegin s + encode_skip v, vend = vend s\<rparr>)"
proof -
  let ?m' = "write_at (vbegin s) (varint_bytes v) m"
  have pos: "0 < encode_skip v" by (rule encode_skip_pos)
  have bounds: "vbegin s + encode_skip v \<le> vend s" "vend s \<le> length m"
    using assms by (auto simp: valid_view_def vsize_def)
  have fits: "vbegin s + length (varint_bytes v) \<le> length m"
    using bounds by (simp add: length_varint_bytes)
  have len: "length ?m' = length m" using fits by (rule length_write_at)
  have bytes: "\<forall>j < encode_skip v. ?m' ! (vbegin s + j) = varint_bytes v ! j"
    using fits by (simp add: nth_write_at length_varint_bytes)
  have "decode_loop is_safe s ?m' 0 (vbegin s) 0 =
          Present (v, \<lparr>vbegin = vbegin s + encode_skip v, vend = vend s\<rparr>)"
    using bounds len bytes by (intro decode_loop_reads [where x = v]) auto
  moreover have "vbegin s \<noteq> vend s" using bounds pos by simp
  ultimately show ?thesis by (simp add: decode_def)
qed

section \<open>Round trip\<close>

text \<open>
  Claim C1. For every value \<open>v\<close> of an unsigned type and every view that holds its
  encoding, \<open>decode\<close> applied to what \<open>encode\<close> wrote returns \<open>v\<close>, and both return
  the same remainder \<open>r\<close>: they advance the same number of bytes. Each of the two runs
  in either mode.
\<close>

theorem varint_roundtrip:
  fixes v :: "'a::len word"
  assumes "valid_view s m" and "encode_skip v \<le> vsize s"
  shows "\<exists>m' r. encode e_safe v s m = (m', Present r) \<and> decode d_safe s m' = Present (v, r)"
  using assms by (simp add: encode_sufficient decode_written)

theorem varint_roundtrip_witness:
  "\<exists>m' r. encode True (150 :: 32 word) \<lparr>vbegin = 0, vend = 4\<rparr> [0, 0, 0, 0] = (m', Present r) \<and>
           decode True \<lparr>vbegin = 0, vend = 4\<rparr> m' = Present (150 :: 32 word, r)"
proof -
  have v: "valid_view \<lparr>vbegin = 0, vend = 4\<rparr> [0, 0, 0, 0]"
    by (simp add: valid_view_def)
  have k: "encode_skip (150 :: 32 word) \<le> vsize \<lparr>vbegin = 0, vend = 4\<rparr>"
    by (simp add: encode_skip.simps vsize_def)
  show ?thesis by (rule varint_roundtrip [OF v k])
qed

section \<open>Canonical form\<close>

lemma uint_drop_bit_7: "uint (drop_bit 7 v) = uint v div 128" for v :: "'a::len word"
proof -
  have "unat (drop_bit 7 v) = unat v div 2 ^ 7"
    unfolding unat_drop_bit_eq by (simp add: drop_bit_eq_div)
  then have "int (unat (drop_bit 7 v)) = int (unat v) div 128" by (simp add: zdiv_int)
  then show ?thesis by (simp only: uint_nat)
qed

lemma encode_skip_bitlen:
  "int (encode_skip n) = max 1 ((bitlen (uint n) + 6) div 7)"
proof (induction n rule: encode_skip.induct)
  case (1 v)
  show ?case
  proof (cases "drop_bit 7 v = 0")
    case True
    then have "unat v < 128" using drop_bit_7_zero_iff [of v] by blast
    then have "uint v < 128" using uint_nat [of v] by linarith
    then have "bitlen (uint v) \<le> 7" by (rule bitlen_below_128)
    then have "(bitlen (uint v) + 6) div 7 \<le> 1" by simp
    then show ?thesis by (simp add: encode_skip_last [OF True])
  next
    case False
    let ?v' = "drop_bit 7 v"
    have "\<not> unat v < 128" using False drop_bit_7_zero_iff [of v] by blast
    then have big: "128 \<le> uint v" using uint_nat [of v] by linarith
    have u': "uint ?v' = uint v div 128" by (rule uint_drop_bit_7)
    have len: "bitlen (uint v) = bitlen (uint ?v') + 7"
      unfolding u' using big by (rule bitlen_div_128)
    have "0 < uint ?v'" using big u' by simp
    then have "bitlen (uint ?v') \<noteq> 0" by (simp add: bitlen_eq_zero_iff)
    then have "1 \<le> bitlen (uint ?v')" using bitlen_nonneg [of "uint ?v'"] by simp
    then have "1 \<le> (bitlen (uint ?v') + 6) div 7" by simp
    moreover have "int (encode_skip ?v') = max 1 ((bitlen (uint ?v') + 6) div 7)"
      using False by (intro "1.IH") auto
    ultimately have "int (encode_skip ?v') = (bitlen (uint ?v') + 6) div 7" by simp
    then show ?thesis by (simp add: encode_skip_more [OF False] len)
  qed
qed

lemma encode_skip_ceiling:
  "int (encode_skip n) = max 1 \<lceil>of_int (bitlen (uint n)) / (7 :: real)\<rceil>"
proof -
  have "\<lceil>of_int (bitlen (uint n)) / (of_int 7 :: real)\<rceil> = - (- bitlen (uint n) div 7)"
    by (rule ceiling_divide_eq_div)
  also have "\<dots> = (bitlen (uint n) + 6) div 7" by simp
  finally show ?thesis by (simp add: encode_skip_bitlen)
qed

text \<open>The continuation bit is set on every byte of an encoding but the last.\<close>

lemma msb_set_varint_bytes:
  "j < encode_skip n \<Longrightarrow> msb_set (varint_bytes n ! j) \<longleftrightarrow> j + 1 < encode_skip n"
proof (induction n arbitrary: j rule: varint_bytes.induct)
  case (1 n)
  show ?case
  proof (cases "drop_bit 7 n = 0")
    case True
    then show ?thesis
      using "1.prems" last_byte_msb [of n]
      by (simp add: encode_skip_last varint_bytes_last msb_set_def)
  next
    case False
    have k: "encode_skip n = 1 + encode_skip (drop_bit 7 n)" using False by (rule encode_skip_more)
    have b: "varint_bytes n = (0x80 OR ucast (take_bit 7 n)) # varint_bytes (drop_bit 7 n)"
      using False by (rule varint_bytes_more)
    show ?thesis
    proof (cases j)
      case 0
      then show ?thesis
        using cont_byte_msb [of n] encode_skip_pos [of "drop_bit 7 n"]
        by (simp add: k b msb_set_def)
    next
      case (Suc j')
      then have "j' < encode_skip (drop_bit 7 n)" using "1.prems" k by simp
      then have "msb_set (varint_bytes (drop_bit 7 n) ! j') \<longleftrightarrow> j' + 1 < encode_skip (drop_bit 7 n)"
        using False by (intro "1.IH") auto
      then show ?thesis by (simp add: Suc k b)
    qed
  qed
qed

lemma varint_bytes_zero: "varint_bytes (0 :: 'a::len word) = [0]"
  by (subst varint_bytes.simps) simp

text \<open>
  Claim C7. On a view that holds it (in either mode), the encoding of \<open>n\<close> is
  \<open>max(1, \<lceil>bitlen(n)/7\<rceil>)\<close> bytes long, which is \<open>encode_skip n\<close>; its last byte has
  MSB 0 and every earlier byte MSB 1; and \<open>0\<close> is written as the single byte \<open>0\<close>.
\<close>

theorem varint_canonical_form:
  fixes n :: "'a::len word"
  assumes "valid_view s m" and "encode_skip n \<le> vsize s"
  shows "\<exists>m' r. encode is_safe n s m = (m', Present r) \<and>
           begin_diff r s = max 1 \<lceil>of_int (bitlen (uint n)) / (7 :: real)\<rceil> \<and>
           begin_diff r s = int (encode_skip n) \<and>
           \<not> msb_set (m' ! (vbegin r - 1)) \<and>
           (\<forall>j. vbegin s \<le> j \<and> j < vbegin r - 1 \<longrightarrow> msb_set (m' ! j)) \<and>
           (n = 0 \<longrightarrow> vbegin r = vbegin s + 1 \<and> m' ! vbegin s = 0)"
proof -
  let ?k = "encode_skip n" and ?b = "vbegin s"
  let ?m' = "write_at ?b (varint_bytes n) m"
  let ?r = "\<lparr>vbegin = ?b + ?k, vend = vend s\<rparr>"
  have pos: "0 < ?k" by (rule encode_skip_pos)
  have fits: "?b + length (varint_bytes n) \<le> length m"
    using assms by (auto simp: valid_view_def vsize_def length_varint_bytes)
  have byte: "?m' ! (?b + j) = varint_bytes n ! j" if "j < ?k" for j
    using fits that by (simp add: nth_write_at length_varint_bytes)
  have enc: "encode is_safe n s m = (?m', Present ?r)"
    using assms by (rule encode_sufficient)
  have diff: "begin_diff ?r s = int ?k" by (simp add: begin_diff_def)
  have last: "\<not> msb_set (?m' ! (vbegin ?r - 1))"
  proof -
    have "vbegin ?r - 1 = ?b + (?k - 1)" using pos by simp
    then have "?m' ! (vbegin ?r - 1) = varint_bytes n ! (?k - 1)"
      using byte [of "?k - 1"] pos by simp
    then show ?thesis using msb_set_varint_bytes [of "?k - 1" n] pos by simp
  qed
  have earlier: "\<forall>j. ?b \<le> j \<and> j < vbegin ?r - 1 \<longrightarrow> msb_set (?m' ! j)"
  proof (intro allI impI)
    fix j assume j: "?b \<le> j \<and> j < vbegin ?r - 1"
    then have lt: "j - ?b + 1 < ?k" by auto
    then have "?m' ! (?b + (j - ?b)) = varint_bytes n ! (j - ?b)" by (intro byte) simp
    then have "?m' ! j = varint_bytes n ! (j - ?b)" using j by simp
    then show "msb_set (?m' ! j)" using msb_set_varint_bytes [of "j - ?b" n] lt by simp
  qed
  have zero: "n = 0 \<longrightarrow> vbegin ?r = ?b + 1 \<and> ?m' ! ?b = 0"
  proof
    assume z: "n = 0"
    then have "?k = 1" by (simp add: encode_skip_last)
    moreover have "?m' ! (?b + 0) = varint_bytes n ! 0" using pos by (rule byte)
    ultimately show "vbegin ?r = ?b + 1 \<and> ?m' ! ?b = 0" using z by (simp add: varint_bytes_zero)
  qed
  show ?thesis
    using enc diff last earlier zero encode_skip_ceiling [of n]
    by (intro exI [of _ ?m'] exI [of _ ?r]) (simp only: simp_thms)
qed

theorem varint_canonical_form_witness:
  "\<exists>m' r. encode True (300 :: 32 word) \<lparr>vbegin = 0, vend = 4\<rparr> [0, 0, 0, 0] = (m', Present r) \<and>
      begin_diff r \<lparr>vbegin = 0, vend = 4\<rparr> = max 1 \<lceil>of_int (bitlen (uint (300 :: 32 word))) / (7 :: real)\<rceil> \<and>
      begin_diff r \<lparr>vbegin = 0, vend = 4\<rparr> = 2 \<and>
      \<not> msb_set (m' ! 1) \<and> msb_set (m' ! 0)"
proof -
  have v: "valid_view \<lparr>vbegin = 0, vend = 4\<rparr> [0, 0, 0, 0]"
    by (simp add: valid_view_def)
  have k: "encode_skip (300 :: 32 word) = 2"
    by (simp add: encode_skip.simps)
  then have fits: "encode_skip (300 :: 32 word) \<le> vsize \<lparr>vbegin = 0, vend = 4\<rparr>"
    by (simp add: vsize_def)
  from varint_canonical_form [OF v fits, of True] obtain m' r where
    enc: "encode True (300 :: 32 word) \<lparr>vbegin = 0, vend = 4\<rparr> [0, 0, 0, 0] = (m', Present r)" and
    len: "begin_diff r \<lparr>vbegin = 0, vend = 4\<rparr> = max 1 \<lceil>of_int (bitlen (uint (300 :: 32 word))) / (7 :: real)\<rceil>" and
    skip: "begin_diff r \<lparr>vbegin = 0, vend = 4\<rparr> = int (encode_skip (300 :: 32 word))" and
    last: "\<not> msb_set (m' ! (vbegin r - 1))" and
    earlier: "\<forall>j. vbegin \<lparr>vbegin = 0, vend = 4\<rparr> \<le> j \<and> j < vbegin r - 1 \<longrightarrow> msb_set (m' ! j)"
    by blast
  have r: "vbegin r = 2" using skip k by (simp add: begin_diff_def)
  have "begin_diff r \<lparr>vbegin = 0, vend = 4\<rparr> = 2" using skip k by simp
  moreover have "\<not> msb_set (m' ! 1)" using last r by simp
  moreover have "msb_set (m' ! 0)" using earlier r by simp
  ultimately show ?thesis using enc len by blast
qed

section \<open>The loops, case by case\<close>

lemma decode_loop_undefined:
  "\<not> derefable s m iter \<or> \<not> shl_defined n (7 * i) \<Longrightarrow>
   decode_loop is_safe s m n iter i = Undefined"
  by (subst decode_loop.simps) auto

lemma decode_loop_stop:
  "derefable s m iter \<Longrightarrow> \<not> msb_set (m ! iter) \<Longrightarrow> shl_defined n (7 * i) \<Longrightarrow>
   decode_loop is_safe s m n iter i =
     Present (n OR push_bit (7 * i) (ucast (m ! iter)), \<lparr>vbegin = iter + 1, vend = vend s\<rparr>)"
  by (subst decode_loop.simps) (simp add: msb_set_def)

lemma decode_loop_end:
  "derefable s m iter \<Longrightarrow> msb_set (m ! iter) \<Longrightarrow> shl_defined n (7 * i) \<Longrightarrow>
   iter + 1 = vend s \<Longrightarrow> decode_loop True s m n iter i = Absent"
  by (subst decode_loop.simps) (simp add: msb_set_def)

lemma decode_loop_step:
  "derefable s m iter \<Longrightarrow> msb_set (m ! iter) \<Longrightarrow> shl_defined n (7 * i) \<Longrightarrow>
   \<not> (is_safe \<and> iter + 1 = vend s) \<Longrightarrow>
   decode_loop is_safe s m n iter i =
     decode_loop is_safe s m (n OR push_bit (7 * i) (ucast ((m ! iter) AND 0x7F))) (iter + 1) (i + 1)"
  by (subst decode_loop.simps) (auto simp: msb_set_def Let_def)

lemma decode_loop_present:
  "decode_loop is_safe s m n iter i = Present (v, r) \<Longrightarrow>
   vend r = vend s \<and> iter < vbegin r \<and> vbegin r \<le> vend s \<and> vbegin s \<le> iter"
proof (induction is_safe s m n iter i rule: decode_loop.induct)
  case (1 is_safe s m n iter i)
  consider (undefined) "\<not> derefable s m iter \<or> \<not> shl_defined n (7 * i)"
    | (stop) "derefable s m iter" "\<not> msb_set (m ! iter)" "shl_defined n (7 * i)"
    | (ends) "derefable s m iter" "msb_set (m ! iter)" "shl_defined n (7 * i)"
        "is_safe" "iter + 1 = vend s"
    | (step) "derefable s m iter" "msb_set (m ! iter)" "shl_defined n (7 * i)"
        "\<not> (is_safe \<and> iter + 1 = vend s)"
    by blast
  then show ?case
  proof cases
    case undefined
    then show ?thesis using "1.prems" by (simp add: decode_loop_undefined)
  next
    case stop
    then show ?thesis using "1.prems" by (auto simp: decode_loop_stop derefable_def)
  next
    case ends
    then show ?thesis using "1.prems" by (simp add: decode_loop_end)
  next
    case step
    let ?n' = "n OR push_bit (7 * i) (ucast ((m ! iter) AND 0x7F))"
    have "decode_loop is_safe s m ?n' (iter + 1) (i + 1) = Present (v, r)"
      using step "1.prems" by (simp add: decode_loop_step)
    then have "vend r = vend s \<and> iter + 1 < vbegin r \<and> vbegin r \<le> vend s \<and> vbegin s \<le> iter + 1"
      using step by (intro "1.IH" [of ?n' "iter + 1" "i + 1"]) (auto simp: msb_set_def)
    then show ?thesis using step(1) by (auto simp: derefable_def)
  qed
qed

lemma decode_loop_absent_gen:
  "is_safe \<Longrightarrow> decode_loop is_safe s m n iter i = Absent \<Longrightarrow>
   \<forall>j. iter \<le> j \<and> j < vend s \<longrightarrow> msb_set (m ! j)"
proof (induction is_safe s m n iter i rule: decode_loop.induct)
  case (1 is_safe s m n iter i)
  consider (undefined) "\<not> derefable s m iter \<or> \<not> shl_defined n (7 * i)"
    | (stop) "derefable s m iter" "\<not> msb_set (m ! iter)" "shl_defined n (7 * i)"
    | (ends) "derefable s m iter" "msb_set (m ! iter)" "shl_defined n (7 * i)"
        "is_safe" "iter + 1 = vend s"
    | (step) "derefable s m iter" "msb_set (m ! iter)" "shl_defined n (7 * i)"
        "\<not> (is_safe \<and> iter + 1 = vend s)"
    by blast
  then show ?case
  proof cases
    case undefined
    then show ?thesis using "1.prems" by (simp add: decode_loop_undefined)
  next
    case stop
    then show ?thesis using "1.prems" by (simp add: decode_loop_stop)
  next
    case ends
    then have "j = iter" if "iter \<le> j \<and> j < vend s" for j using that by auto
    then show ?thesis using ends(2) by blast
  next
    case step
    let ?n' = "n OR push_bit (7 * i) (ucast ((m ! iter) AND 0x7F))"
    have "decode_loop is_safe s m ?n' (iter + 1) (i + 1) = Absent"
      using step "1.prems" by (simp add: decode_loop_step)
    then have rest: "\<forall>j. iter + 1 \<le> j \<and> j < vend s \<longrightarrow> msb_set (m ! j)"
      using step "1.prems"(1)
      by (intro "1.IH" [of ?n' "iter + 1" "i + 1"]) (auto simp: msb_set_def)
    show ?thesis
    proof (intro allI impI)
      fix j assume "iter \<le> j \<and> j < vend s"
      then consider "j = iter" | "iter + 1 \<le> j \<and> j < vend s" by force
      then show "msb_set (m ! j)" using step(2) rest by cases auto
    qed
  qed
qed

lemma decode_loop_absent:
  "decode_loop True s m n iter i = Absent \<Longrightarrow> \<forall>j. iter \<le> j \<and> j < vend s \<longrightarrow> msb_set (m ! j)"
  by (rule decode_loop_absent_gen [of True]) simp_all

lemma decode_loop_modes_agree_gen:
  "is_safe \<Longrightarrow> decode_loop is_safe s m n iter i \<noteq> Absent \<Longrightarrow>
   decode_loop False s m n iter i = decode_loop is_safe s m n iter i"
proof (induction is_safe s m n iter i rule: decode_loop.induct)
  case (1 is_safe s m n iter i)
  consider (undefined) "\<not> derefable s m iter \<or> \<not> shl_defined n (7 * i)"
    | (stop) "derefable s m iter" "\<not> msb_set (m ! iter)" "shl_defined n (7 * i)"
    | (ends) "derefable s m iter" "msb_set (m ! iter)" "shl_defined n (7 * i)"
        "is_safe" "iter + 1 = vend s"
    | (step) "derefable s m iter" "msb_set (m ! iter)" "shl_defined n (7 * i)"
        "\<not> (is_safe \<and> iter + 1 = vend s)"
    by blast
  then show ?case
  proof cases
    case undefined
    then show ?thesis by (simp add: decode_loop_undefined)
  next
    case stop
    then show ?thesis by (simp add: decode_loop_stop)
  next
    case ends
    then show ?thesis using "1.prems" by (simp add: decode_loop_end)
  next
    case step
    let ?n' = "n OR push_bit (7 * i) (ucast ((m ! iter) AND 0x7F))"
    have "decode_loop is_safe s m ?n' (iter + 1) (i + 1) \<noteq> Absent"
      using step "1.prems" by (simp add: decode_loop_step)
    then have "decode_loop False s m ?n' (iter + 1) (i + 1) =
                 decode_loop is_safe s m ?n' (iter + 1) (i + 1)"
      using step "1.prems"(1)
      by (intro "1.IH" [of ?n' "iter + 1" "i + 1"]) (auto simp: msb_set_def)
    then show ?thesis using step by (simp add: decode_loop_step)
  qed
qed

lemma decode_loop_modes_agree:
  "decode_loop True s m n iter i \<noteq> Absent \<Longrightarrow>
   decode_loop False s m n iter i = decode_loop True s m n iter i"
  by (rule decode_loop_modes_agree_gen) simp_all

text \<open>A terminating byte at \<open>t\<close>, reached while every shift is defined, ends the loop.\<close>

lemma decode_loop_terminated:
  fixes n :: "'a::len word"
  assumes "vbegin s \<le> iter" and "t < vend s" and "vend s \<le> length m"
    and "\<forall>j. iter \<le> j \<and> j < t \<longrightarrow> msb_set (m ! j)" and "\<not> msb_set (m ! t)"
    and "7 * (i + (t - iter)) < max 32 LENGTH('a)" and "k = t - iter" and "iter \<le> t"
  shows "\<exists>v. decode_loop is_safe s m n iter i = Present (v, \<lparr>vbegin = t + 1, vend = vend s\<rparr>)"
  using assms
proof (induction k arbitrary: n iter i)
  case 0
  then have "iter = t" by simp
  moreover have "derefable s m t" using 0 by (simp add: derefable_def)
  moreover have "shl_defined n (7 * i)" using 0 by (simp add: shl_defined_def)
  ultimately show ?case using 0 by (simp add: decode_loop_stop)
next
  case (Suc k)
  then have lt: "iter < t" by simp
  have d: "derefable s m iter" using Suc.prems lt by (simp add: derefable_def)
  have c: "msb_set (m ! iter)" using Suc.prems(4) lt by simp
  have sh: "shl_defined n (7 * i)" using Suc.prems(6) by (simp add: shl_defined_def)
  have ne: "iter + 1 \<noteq> vend s" using lt Suc.prems(2) by simp
  let ?n' = "n OR push_bit (7 * i) (ucast ((m ! iter) AND 0x7F))"
  have "\<exists>v. decode_loop is_safe s m ?n' (iter + 1) (i + 1) = Present (v, \<lparr>vbegin = t + 1, vend = vend s\<rparr>)"
    using Suc.prems lt by (intro Suc.IH) auto
  then show ?case using d c sh ne by (simp add: decode_loop_step)
qed

lemma encode_loop_absent:
  "is_safe \<Longrightarrow> iter = vend s \<Longrightarrow> encode_loop is_safe n iter s m = (m, Absent)"
  by (subst encode_loop.simps) simp

lemma encode_loop_undefined:
  "\<not> (is_safe \<and> iter = vend s) \<Longrightarrow> \<not> derefable s m iter \<Longrightarrow>
   encode_loop is_safe n iter s m = (m, Undefined)"
  by (subst encode_loop.simps) auto

lemma encode_loop_last:
  "\<not> (is_safe \<and> iter = vend s) \<Longrightarrow> derefable s m iter \<Longrightarrow> drop_bit 7 n = 0 \<Longrightarrow>
   encode_loop is_safe n iter s m = (m[iter := 0x80 OR ucast n], Present (iter + 1))"
  by (subst encode_loop.simps) (auto simp: Let_def)

lemma encode_loop_step:
  "\<not> (is_safe \<and> iter = vend s) \<Longrightarrow> derefable s m iter \<Longrightarrow> drop_bit 7 n \<noteq> 0 \<Longrightarrow>
   encode_loop is_safe n iter s m =
     encode_loop is_safe (drop_bit 7 n) (iter + 1) s (m[iter := 0x80 OR ucast n])"
  by (subst encode_loop.simps) (auto simp: Let_def)

text \<open>The loop writes inside the view only, in either mode, whatever it returns.\<close>

lemma encode_loop_frame:
  "encode_loop is_safe n iter s m = (m', res) \<Longrightarrow>
   length m' = length m \<and> (\<forall>j. j < vbegin s \<or> vend s \<le> j \<longrightarrow> m' ! j = m ! j)"
proof (induction is_safe n iter s m rule: encode_loop.induct)
  case (1 is_safe n iter s m)
  consider (absent) "is_safe \<and> iter = vend s"
    | (undefined) "\<not> (is_safe \<and> iter = vend s)" "\<not> derefable s m iter"
    | (last) "\<not> (is_safe \<and> iter = vend s)" "derefable s m iter" "drop_bit 7 n = 0"
    | (step) "\<not> (is_safe \<and> iter = vend s)" "derefable s m iter" "drop_bit 7 n \<noteq> 0"
    by blast
  then show ?case
  proof cases
    case absent
    then show ?thesis using "1.prems" by (simp add: encode_loop_absent)
  next
    case undefined
    then show ?thesis using "1.prems" by (simp add: encode_loop_undefined)
  next
    case last
    then have "m' = m[iter := 0x80 OR ucast n]" using "1.prems" by (simp add: encode_loop_last)
    then show ?thesis using last(2) by (auto simp: derefable_def)
  next
    case step
    let ?m1 = "m[iter := 0x80 OR ucast n]"
    have "encode_loop is_safe (drop_bit 7 n) (iter + 1) s ?m1 = (m', res)"
      using step "1.prems" by (simp add: encode_loop_step)
    then have "length m' = length ?m1 \<and> (\<forall>j. j < vbegin s \<or> vend s \<le> j \<longrightarrow> m' ! j = ?m1 ! j)"
      using step by (intro "1.IH" [of ?m1 "drop_bit 7 n" "iter + 1"]) auto
    then show ?thesis using step(2) by (auto simp: derefable_def)
  qed
qed

lemma encode_loop_present:
  "encode_loop is_safe n iter s m = (m', Present iter') \<Longrightarrow>
   vbegin s \<le> iter \<and> iter < iter' \<and> iter' \<le> vend s"
proof (induction is_safe n iter s m rule: encode_loop.induct)
  case (1 is_safe n iter s m)
  consider (absent) "is_safe \<and> iter = vend s"
    | (undefined) "\<not> (is_safe \<and> iter = vend s)" "\<not> derefable s m iter"
    | (last) "\<not> (is_safe \<and> iter = vend s)" "derefable s m iter" "drop_bit 7 n = 0"
    | (step) "\<not> (is_safe \<and> iter = vend s)" "derefable s m iter" "drop_bit 7 n \<noteq> 0"
    by blast
  then show ?case
  proof cases
    case absent
    then show ?thesis using "1.prems" by (simp add: encode_loop_absent)
  next
    case undefined
    then show ?thesis using "1.prems" by (simp add: encode_loop_undefined)
  next
    case last
    then have "iter' = iter + 1" using "1.prems" by (simp add: encode_loop_last)
    then show ?thesis using last(2) by (auto simp: derefable_def)
  next
    case step
    let ?m1 = "m[iter := 0x80 OR ucast n]"
    have "encode_loop is_safe (drop_bit 7 n) (iter + 1) s ?m1 = (m', Present iter')"
      using step "1.prems" by (simp add: encode_loop_step)
    then have "vbegin s \<le> iter + 1 \<and> iter + 1 < iter' \<and> iter' \<le> vend s"
      using step by (intro "1.IH" [of ?m1 "drop_bit 7 n" "iter + 1"]) auto
    then show ?thesis using step(2) by (auto simp: derefable_def)
  qed
qed

text \<open>In safe mode a view too short for the encoding is found out at its end.\<close>

lemma encode_loop_short:
  "is_safe \<Longrightarrow> vbegin s \<le> iter \<Longrightarrow> iter \<le> vend s \<Longrightarrow> vend s \<le> length m \<Longrightarrow>
   vend s - iter < encode_skip n \<Longrightarrow> snd (encode_loop is_safe n iter s m) = Absent"
proof (induction is_safe n iter s m rule: encode_loop.induct)
  case (1 is_safe n iter s m)
  show ?case
  proof (cases "iter = vend s")
    case True
    then show ?thesis using "1.prems"(1) by (simp add: encode_loop_absent)
  next
    case False
    then have d: "derefable s m iter" using "1.prems" by (simp add: derefable_def)
    have ns: "\<not> (is_safe \<and> iter = vend s)" using False by simp
    have more: "drop_bit 7 n \<noteq> 0"
    proof
      assume "drop_bit 7 n = 0"
      then have "encode_skip n = 1" by (rule encode_skip_last)
      then show False using "1.prems" False by simp
    qed
    let ?m1 = "m[iter := 0x80 OR ucast n]"
    have "vend s - (iter + 1) < encode_skip (drop_bit 7 n)"
      using "1.prems" False by (simp add: encode_skip_more [OF more])
    then have "snd (encode_loop is_safe (drop_bit 7 n) (iter + 1) s ?m1) = Absent"
      using ns d more "1.prems" False
      by (intro "1.IH" [of ?m1 "drop_bit 7 n" "iter + 1"]) auto
    then show ?thesis using ns d more by (simp add: encode_loop_step)
  qed
qed

section \<open>Safe mode on a view that is too short\<close>

text \<open>
  Claim C9. For every value \<open>v\<close> and every view shorter than its encoding, safe-mode
  \<open>encode\<close> returns an absent result, and the storage outside the view (before its
  begin, at or past its end) is what it was: the check \<open>iter == end\<close> comes before each
  write.
\<close>

theorem safe_encode_short_view:
  fixes v :: "'a::len word"
  assumes "valid_view s m" and "vsize s < encode_skip v"
  shows "snd (encode True v s m) = Absent \<and>
         length (fst (encode True v s m)) = length m \<and>
         (\<forall>j. j < vbegin s \<or> vend s \<le> j \<longrightarrow> fst (encode True v s m) ! j = m ! j)"
proof -
  obtain m' res where loop: "encode_loop True v (vbegin s) s m = (m', res)"
    by (cases "encode_loop True v (vbegin s) s m")
  have "snd (encode_loop True v (vbegin s) s m) = Absent"
    using assms by (intro encode_loop_short) (auto simp: valid_view_def vsize_def)
  then have res: "res = Absent" using loop by simp
  have enc: "encode True v s m = (m', Absent)"
    unfolding encode_def loop res by simp
  show ?thesis unfolding enc using encode_loop_frame [OF loop] by simp
qed

theorem safe_encode_short_view_witness:
  "snd (encode True (150 :: 32 word) \<lparr>vbegin = 0, vend = 1\<rparr> [0, 0x55]) = Absent \<and>
   length (fst (encode True (150 :: 32 word) \<lparr>vbegin = 0, vend = 1\<rparr> [0, 0x55])) = 2 \<and>
   fst (encode True (150 :: 32 word) \<lparr>vbegin = 0, vend = 1\<rparr> [0, 0x55]) ! 1 = 0x55"
proof -
  have v: "valid_view \<lparr>vbegin = 0, vend = 1\<rparr> [0, 0x55]"
    by (simp add: valid_view_def)
  have k: "vsize \<lparr>vbegin = 0, vend = 1\<rparr> < encode_skip (150 :: 32 word)"
    by (simp add: encode_skip.simps vsize_def)
  show ?thesis using safe_encode_short_view [OF v k] by simp
qed

section \<open>The length of a continuation run\<close>

text \<open>
  Claim C2 says that safe-mode \<open>decode\<close> returns an absent result once the run of bytes
  with the continuation bit exceeds \<open>\<lceil>bitwidth/7\<rceil>\<close> bytes, even with a terminating
  byte inside the view. The loop has no such bound. For an 8-bit \<open>U\<close> the bound is 2
  bytes; a run of 3 followed by a terminating byte decodes to a present result (the
  groups shifted beyond the width are discarded).
\<close>

theorem decode_long_run_counterexample:
  "msb_set 0x80 \<and> \<not> msb_set 0x00 \<and> (LENGTH(8) + 6) div 7 < (3 :: nat) \<and>
   decode True \<lparr>vbegin = 0, vend = 4\<rparr> [0x80, 0x80, 0x80, 0x00]
     = Present (0 :: 8 word, \<lparr>vbegin = 4, vend = 4\<rparr>)"
  by (simp add: decode_def decode_loop.simps derefable_def shl_defined_def msb_set_def)

text \<open>
  For a 32-bit \<open>U\<close> the group after the fifth byte is shifted by 35, which C++ leaves
  undefined for a 32-bit operand; the result is not an absent one either.
\<close>

lemma decode_long_run_32:
  "decode True \<lparr>vbegin = 0, vend = 7\<rparr> [0x80, 0x80, 0x80, 0x80, 0x80, 0x80, 0x00]
     = (Undefined :: (32 word \<times> view) result)"
  by (simp add: decode_def decode_loop.simps derefable_def shl_defined_def)

text \<open>
  Claim C2, amended. Safe-mode \<open>decode\<close> returns an absent result only when no byte of
  the view has MSB 0 (the view is empty, or it ends inside the continuation run):
  with a terminating byte inside the view the result is never absent, however long the
  run before it.
\<close>

theorem safe_decode_absent_unterminated:
  assumes "decode True s m = (Absent :: ('a::len word \<times> view) result)"
  shows "\<forall>j. vbegin s \<le> j \<and> j < vend s \<longrightarrow> msb_set (m ! j)"
proof (cases "vbegin s = vend s")
  case True
  then show ?thesis by auto
next
  case False
  then have "decode_loop True s m (0 :: 'a word) (vbegin s) 0 = Absent"
    using assms by (simp add: decode_def)
  then show ?thesis by (rule decode_loop_absent)
qed

theorem safe_decode_absent_unterminated_witness:
  "decode True \<lparr>vbegin = 0, vend = 2\<rparr> [0x80, 0x80] = (Absent :: (32 word \<times> view) result) \<and>
   msb_set ([0x80, 0x80] ! 0) \<and> msb_set ([0x80, 0x80] ! 1)"
proof -
  have a: "decode True \<lparr>vbegin = 0, vend = 2\<rparr> [0x80, 0x80] = (Absent :: (32 word \<times> view) result)"
    by (simp add: decode_def decode_loop.simps derefable_def shl_defined_def)
  note run = safe_decode_absent_unterminated [OF a]
  have "msb_set ([0x80, 0x80] ! 0)" using run [THEN spec, of 0] by simp
  moreover have "msb_set ([0x80, 0x80] ! 1)" using run [THEN spec, of 1] by simp
  ultimately show ?thesis using a by (intro conjI)
qed

section \<open>Safe and unsafe mode\<close>

lemma decode_terminated:
  fixes t :: nat
  assumes "valid_view s m" and "vbegin s \<le> t" and "t < vend s"
    and "\<forall>j. vbegin s \<le> j \<and> j < t \<longrightarrow> msb_set (m ! j)" and "\<not> msb_set (m ! t)"
    and "7 * (t - vbegin s) < max 32 LENGTH('a)"
  shows "\<exists>v :: 'a::len word.
           decode True s m = Present (v, \<lparr>vbegin = t + 1, vend = vend s\<rparr>) \<and>
           decode False s m = Present (v, \<lparr>vbegin = t + 1, vend = vend s\<rparr>)"
proof -
  let ?r = "\<lparr>vbegin = t + 1, vend = vend s\<rparr>"
  have ne: "vbegin s \<noteq> vend s" using assms by simp
  have "\<exists>v. decode_loop True s m (0 :: 'a word) (vbegin s) 0 = Present (v, ?r)"
    using assms by (intro decode_loop_terminated [where k = "t - vbegin s"])
      (auto simp: valid_view_def)
  then obtain v where safe: "decode_loop True s m (0 :: 'a word) (vbegin s) 0 = Present (v, ?r)" ..
  then have "decode_loop False s m (0 :: 'a word) (vbegin s) 0 = Present (v, ?r)"
    using decode_loop_modes_agree [of s m "0 :: 'a word" "vbegin s" 0] by simp
  with safe ne show ?thesis by (auto simp: decode_def)
qed

text \<open>
  Claim C8. On a view that holds the encoding of \<open>v\<close>, safe and unsafe \<open>encode\<close> leave
  the same storage and return the same remainder. On a view that contains a complete
  varint (a byte with MSB 0 at \<open>t\<close>, the continuation bit on every byte before it, every
  group shifted by less than the width of the promoted operand, as in any varint of at
  most \<open>\<lceil>bitwidth/7\<rceil>\<close> bytes), safe and unsafe \<open>decode\<close> return the same value and the
  same remainder.
\<close>

theorem safe_unsafe_agree:
  fixes v :: "'a::len word"
  shows "(valid_view s m \<and> encode_skip v \<le> vsize s \<longrightarrow>
            encode True v s m = encode False v s m \<and>
            (\<exists>r. snd (encode True v s m) = Present r)) \<and>
         (valid_view s' m' \<and> vbegin s' \<le> t \<and> t < vend s' \<and>
          (\<forall>j. vbegin s' \<le> j \<and> j < t \<longrightarrow> msb_set (m' ! j)) \<and> \<not> msb_set (m' ! t) \<and>
          7 * (t - vbegin s') < max 32 LENGTH('b) \<longrightarrow>
            (\<exists>(w :: 'b::len word) r.
               decode True s' m' = Present (w, r) \<and> decode False s' m' = Present (w, r)))"
proof (rule conjI; rule impI)
  assume "valid_view s m \<and> encode_skip v \<le> vsize s"
  then show "encode True v s m = encode False v s m \<and> (\<exists>r. snd (encode True v s m) = Present r)"
    by (simp add: encode_sufficient)
next
  assume a: "valid_view s' m' \<and> vbegin s' \<le> t \<and> t < vend s' \<and>
          (\<forall>j. vbegin s' \<le> j \<and> j < t \<longrightarrow> msb_set (m' ! j)) \<and> \<not> msb_set (m' ! t) \<and>
          7 * (t - vbegin s') < max 32 LENGTH('b)"
  then have "\<exists>w :: 'b word.
           decode True s' m' = Present (w, \<lparr>vbegin = t + 1, vend = vend s'\<rparr>) \<and>
           decode False s' m' = Present (w, \<lparr>vbegin = t + 1, vend = vend s'\<rparr>)"
    by (intro decode_terminated) auto
  then show "\<exists>(w :: 'b word) r. decode True s' m' = Present (w, r) \<and> decode False s' m' = Present (w, r)"
    by blast
qed

theorem safe_unsafe_agree_witness:
  "encode True (150 :: 32 word) \<lparr>vbegin = 0, vend = 4\<rparr> [0, 0, 0, 0]
     = encode False (150 :: 32 word) \<lparr>vbegin = 0, vend = 4\<rparr> [0, 0, 0, 0] \<and>
   (\<exists>r. snd (encode True (150 :: 32 word) \<lparr>vbegin = 0, vend = 4\<rparr> [0, 0, 0, 0]) = Present r) \<and>
   (\<exists>(w :: 32 word) r.
      decode True \<lparr>vbegin = 0, vend = 4\<rparr> [0x96, 0x01, 0, 0] = Present (w, r) \<and>
      decode False \<lparr>vbegin = 0, vend = 4\<rparr> [0x96, 0x01, 0, 0] = Present (w, r))"
proof -
  have h1: "valid_view \<lparr>vbegin = 0, vend = 4\<rparr> [0, 0, 0, 0] \<and>
    encode_skip (150 :: 32 word) \<le> vsize \<lparr>vbegin = 0, vend = 4\<rparr>"
    by (simp add: valid_view_def vsize_def encode_skip.simps)
  have h2: "valid_view \<lparr>vbegin = 0, vend = 4\<rparr> [0x96, 0x01, 0, 0] \<and>
    vbegin \<lparr>vbegin = 0, vend = 4\<rparr> \<le> 1 \<and> 1 < vend \<lparr>vbegin = 0, vend = 4\<rparr> \<and>
    (\<forall>j. vbegin \<lparr>vbegin = 0, vend = 4\<rparr> \<le> j \<and> j < 1 \<longrightarrow> msb_set ([0x96, 0x01, 0, 0] ! j)) \<and>
    \<not> msb_set ([0x96, 0x01, 0, 0] ! 1) \<and>
    7 * (1 - vbegin \<lparr>vbegin = 0, vend = 4\<rparr>) < max 32 LENGTH(32)"
    by (simp add: valid_view_def msb_set_def)
  note inst = safe_unsafe_agree [where ?'a = 32 and ?'b = 32 and v = 150
      and s = "\<lparr>vbegin = 0, vend = 4\<rparr>" and m = "[0, 0, 0, 0]"
      and s' = "\<lparr>vbegin = 0, vend = 4\<rparr>" and m' = "[0x96, 0x01, 0, 0]" and t = 1]
  from inst h1 have e: "encode True (150 :: 32 word) \<lparr>vbegin = 0, vend = 4\<rparr> [0, 0, 0, 0]
     = encode False (150 :: 32 word) \<lparr>vbegin = 0, vend = 4\<rparr> [0, 0, 0, 0] \<and>
   (\<exists>r. snd (encode True (150 :: 32 word) \<lparr>vbegin = 0, vend = 4\<rparr> [0, 0, 0, 0]) = Present r)"
    by (rule conjunct1 [THEN mp])
  from inst h2 have d: "\<exists>(w :: 32 word) r.
      decode True \<lparr>vbegin = 0, vend = 4\<rparr> [0x96, 0x01, 0, 0] = Present (w, r) \<and>
      decode False \<lparr>vbegin = 0, vend = 4\<rparr> [0x96, 0x01, 0, 0] = Present (w, r)"
    by (rule conjunct2 [THEN mp])
  show ?thesis
    by (rule conjI [OF conjunct1 [OF e] conjI [OF conjunct2 [OF e] d]])
qed

section \<open>Signed values\<close>

lemma bitlen_32:
  fixes x :: int
  assumes "2 ^ 31 \<le> x" and "x < 2 ^ 32"
  shows "bitlen x = 32"
proof -
  have "x div 2 ^ 31 = 1" using assms by simp
  moreover have "bitlen x = bitlen (x div 2 ^ 31) + int 31"
    using assms(1) by (rule bitlen_div_pow2)
  moreover have "bitlen 1 = 1" by (simp add: bitlen_alt_def)
  ultimately show ?thesis by simp
qed

lemma encode_skip_negative_32:
  assumes "- (2 ^ 31) \<le> n" and "n < 0"
  shows "encode_skip (word_of_int n :: 32 word) = 5"
proof -
  have "uint (word_of_int n :: 32 word) = n mod 2 ^ 32"
    by (simp add: uint_word_of_int take_bit_eq_mod)
  also have "\<dots> = (n + 2 ^ 32) mod 2 ^ 32" by simp
  also have "\<dots> = n + 2 ^ 32"
    using assms by (intro mod_pos_pos_trivial) auto
  finally have u: "uint (word_of_int n :: 32 word) = n + 2 ^ 32" .
  have "bitlen (uint (word_of_int n :: 32 word)) = 32"
    unfolding u using assms by (intro bitlen_32) auto
  then have "int (encode_skip (word_of_int n :: 32 word)) = 5"
    by (simp add: encode_skip_bitlen)
  then show ?thesis by simp
qed

text \<open>
  Claim C3 says that a negative value of a signed 32-bit type is written as 10 bytes,
  sign-extended to 64 bits. The signed coder converts to the unsigned type of the same
  width, so \<open>-1\<close> is \<open>0xFFFFFFFF\<close> and takes 5 bytes.
\<close>

theorem signed_encode_minus_one_counterexample:
  "signed_encode TYPE(32) True (- 1) \<lparr>vbegin = 0, vend = 10\<rparr> [0, 0, 0, 0, 0, 0, 0, 0, 0, 0]
     = ([0xFF, 0xFF, 0xFF, 0xFF, 0x0F, 0, 0, 0, 0, 0], Present \<lparr>vbegin = 5, vend = 10\<rparr>) \<and>
   begin_diff \<lparr>vbegin = 5, vend = 10\<rparr> \<lparr>vbegin = 0, vend = 10\<rparr> \<noteq> 10"
  by code_simp

text \<open>
  Claim C3, amended. For every negative value \<open>n\<close> of a signed 32-bit type, \<open>encode\<close>
  (in either mode, on a view of at least 5 bytes) writes exactly 5 bytes: the encoding
  of the value converted to the unsigned type of the same width.
\<close>

theorem signed_encode_negative_32:
  assumes "- (2 ^ 31) \<le> n" and "n < 0" and "valid_view s m" and "5 \<le> vsize s"
  shows "signed_encode TYPE(32) is_safe n s m =
           (write_at (vbegin s) (varint_bytes (word_of_int n :: 32 word)) m,
            Present \<lparr>vbegin = vbegin s + 5, vend = vend s\<rparr>) \<and>
         length (varint_bytes (word_of_int n :: 32 word)) = 5"
proof -
  have k: "encode_skip (word_of_int n :: 32 word) = 5"
    using assms(1,2) by (rule encode_skip_negative_32)
  then have "encode_skip (word_of_int n :: 32 word) \<le> vsize s" using assms(4) by simp
  with assms(3) have "encode is_safe (word_of_int n :: 32 word) s m =
      (write_at (vbegin s) (varint_bytes (word_of_int n :: 32 word)) m,
       Present \<lparr>vbegin = vbegin s + encode_skip (word_of_int n :: 32 word), vend = vend s\<rparr>)"
    by (rule encode_sufficient)
  then show ?thesis by (simp add: signed_encode_def k length_varint_bytes)
qed

theorem signed_encode_negative_32_witness:
  "signed_encode TYPE(32) False (- 2) \<lparr>vbegin = 0, vend = 10\<rparr> [0, 0, 0, 0, 0, 0, 0, 0, 0, 0] =
     (write_at 0 (varint_bytes (word_of_int (- 2) :: 32 word)) [0, 0, 0, 0, 0, 0, 0, 0, 0, 0],
      Present \<lparr>vbegin = 5, vend = 10\<rparr>) \<and>
   length (varint_bytes (word_of_int (- 2) :: 32 word)) = 5"
proof -
  have v: "valid_view \<lparr>vbegin = 0, vend = 10\<rparr> [0, 0, 0, 0, 0, 0, 0, 0, 0, 0]"
    by (simp add: valid_view_def)
  have k: "5 \<le> vsize \<lparr>vbegin = 0, vend = 10\<rparr>"
    by (simp add: vsize_def)
  have lo: "- (2 ^ 31) \<le> (- 2 :: int)" and neg: "(- 2 :: int) < 0" by simp_all
  show ?thesis using signed_encode_negative_32 [OF lo neg v k, of False] by simp
qed

section \<open>The skipper of enum\_coder\<close>

text \<open>
  Claim C4: \<open>decode_skip\<close> of \<open>skipper<enum_coder<T>>\<close> advances by \<open>encode_skip(v)\<close>
  bytes, the number \<open>enum_coder<T>::encode(v)\<close> wrote. The enumerator \<open>green = 1\<close> of an
  enumeration with a 32-bit underlying type is written as 1 byte and \<open>encode_skip\<close> is 1,
  but \<open>decode_skip\<close>, which forwards to the skipper of \<open>integer_coder\<close>, advances by
  \<open>sizeof\<close> = 4 bytes; the skipper of \<open>varint_coder\<close> advances by 1 on the same bytes.
\<close>

theorem enum_decode_skip_advances_sizeof:
  "enum_encode True (1 :: 32 word) \<lparr>vbegin = 0, vend = 10\<rparr> [0, 0, 0, 0, 0, 0, 0, 0, 0, 0]
     = ([1, 0, 0, 0, 0, 0, 0, 0, 0, 0], Present \<lparr>vbegin = 1, vend = 10\<rparr>) \<and>
   enum_encode_skip (1 :: 32 word) = 1 \<and>
   enum_decode_skip TYPE(32) True \<lparr>vbegin = 0, vend = 10\<rparr> = Present \<lparr>vbegin = 4, vend = 10\<rparr> \<and>
   decode_skip True \<lparr>vbegin = 0, vend = 10\<rparr> [1, 0, 0, 0, 0, 0, 0, 0, 0, 0]
     = Present \<lparr>vbegin = 1, vend = 10\<rparr>"
  by (simp add: enum_encode_def encode_def encode_loop.simps derefable_def enum_encode_skip_def
      encode_skip.simps enum_decode_skip_def integer_decode_skip_def sizeof_def vsize_def
      decode_skip_def decode_skip_loop.simps)

section \<open>array\_coder: encode\<close>

lemma write_at_append:
  assumes "p + length bs + length cs \<le> length m"
  shows "write_at (p + length bs) cs (write_at p bs m) = write_at p (bs @ cs) m"
proof -
  let ?m1 = "take p m @ bs @ drop (p + length bs) m"
  have lp: "length (take p m) = p" using assms by simp
  have t: "take (p + length bs) ?m1 = take p m @ bs"
    using lp by (simp del: length_take)
  have "drop (p + length bs + length cs) ?m1
          = drop (length cs) (drop (p + length bs) m)"
    using lp by (simp del: length_take)
  then have d: "drop (p + length bs + length cs) ?m1 = drop (p + length bs + length cs) m"
    by (simp add: add.commute)
  show ?thesis unfolding write_at_def t d by (simp add: add.assoc)
qed

lemma write_at_nil: "write_at p [] m = m"
  by (simp add: write_at_def)

lemma sum_encode_skip_eq:
  "sum_encode_skip C con = of_nat (sum_list (map (c_encode_skip C) con))"
proof -
  have "fold (\<lambda>i n. n + of_nat (c_encode_skip C i)) con a
          = a + of_nat (sum_list (map (c_encode_skip C) con))" for a :: "64 word"
    by (induction con arbitrary: a) (simp_all add: add.assoc)
  then show ?thesis by (simp add: sum_encode_skip_def)
qed

lemma length_concat_bytes:
  assumes "coder_writes C bytes_of"
  shows "length (concat (map bytes_of con)) = sum_list (map (c_encode_skip C) con)"
proof -
  have "c_encode_skip C v = length (bytes_of v)" for v
    using assms by (simp add: coder_writes_def)
  then show ?thesis by (induction con) simp_all
qed

text \<open>The second loop writes the encodings of the elements one after the other.\<close>

lemma encode_elems_writes:
  assumes "coder_writes C bytes_of"
  shows "valid_view b m \<Longrightarrow> length (concat (map bytes_of con)) \<le> vsize b \<Longrightarrow>
         encode_elems is_safe C con b m =
           (write_at (vbegin b) (concat (map bytes_of con)) m,
            Present \<lparr>vbegin = vbegin b + length (concat (map bytes_of con)), vend = vend b\<rparr>)"
proof (induction con arbitrary: b m)
  case Nil
  then show ?case by (simp add: write_at_nil)
next
  case (Cons i con)
  let ?bs = "bytes_of i" and ?cs = "concat (map bytes_of con)"
  let ?b1 = "\<lparr>vbegin = vbegin b + length ?bs, vend = vend b\<rparr>"
  let ?m1 = "write_at (vbegin b) ?bs m"
  have fits: "vbegin b + length ?bs + length ?cs \<le> length m" "vbegin b + length ?bs + length ?cs \<le> vend b"
    using Cons.prems by (auto simp: valid_view_def vsize_def)
  have "length ?bs \<le> vsize b" using Cons.prems(2) by simp
  then have first: "c_encode C is_safe i b m = (?m1, Present ?b1)"
    using assms Cons.prems(1) by (simp add: coder_writes_def)
  have len1: "length ?m1 = length m" using fits by (intro length_write_at) simp
  have v1: "valid_view ?b1 ?m1" using fits Cons.prems(1) len1 by (simp add: valid_view_def)
  have s1: "length ?cs \<le> vsize ?b1" using fits by (simp add: vsize_def)
  have "encode_elems is_safe C con ?b1 ?m1 =
          (write_at (vbegin ?b1) ?cs ?m1, Present \<lparr>vbegin = vbegin ?b1 + length ?cs, vend = vend ?b1\<rparr>)"
    using v1 s1 by (rule Cons.IH)
  moreover have "write_at (vbegin ?b1) ?cs ?m1 = write_at (vbegin b) (?bs @ ?cs) m"
    using fits(1) by (simp add: write_at_append)
  ultimately show ?case using first by (simp add: add.assoc)
qed

lemma varint_coder_writes: "coder_writes (varint_coder :: 'a::len word coder) varint_bytes"
  by (simp add: coder_writes_def varint_coder_def length_varint_bytes encode_sufficient)

text \<open>
  Claim C6. For every sequence \<open>con\<close> and every view that holds the result, \<open>encode\<close>
  writes the varint of \<open>L\<close>, the sum of the \<open>encode_skip\<close> of the elements, then the
  encodings of the elements in order; the bytes written are \<open>varint_len(L) + L\<close>, the
  value of \<open>encode_skip\<close> of the skipper of the array coder. The element coder is any
  \<open>C\<close> that keeps the contract of \<open>encode\<close>; the storage is shorter than \<open>2 ^ 64\<close> bytes.
\<close>

theorem array_encode_layout:
  assumes "coder_writes C bytes_of" and "valid_view b m" and "length m < 2 ^ 64"
    and "L = sum_list (map (c_encode_skip C) con)"
    and "encode_skip (of_nat L :: 64 word) + L \<le> vsize b"
  shows "array_encode is_safe C con b m =
           (write_at (vbegin b) (varint_bytes (of_nat L :: 64 word) @ concat (map bytes_of con)) m,
            Present \<lparr>vbegin = vbegin b + (encode_skip (of_nat L :: 64 word) + L), vend = vend b\<rparr>) \<and>
         array_encode_skip C con = encode_skip (of_nat L :: 64 word) + L"
proof -
  let ?n = "of_nat L :: 64 word"
  let ?k = "encode_skip ?n"
  let ?bs = "varint_bytes ?n" and ?cs = "concat (map bytes_of con)"
  let ?b1 = "\<lparr>vbegin = vbegin b + ?k, vend = vend b\<rparr>"
  let ?m1 = "write_at (vbegin b) ?bs m"
  have n: "sum_encode_skip C con = ?n" using assms(4) by (simp add: sum_encode_skip_eq)
  have lcs: "length ?cs = L" using assms(1,4) by (simp add: length_concat_bytes)
  have lbs: "length ?bs = ?k" by (rule length_varint_bytes)
  have fits: "vbegin b + ?k + L \<le> length m" "vbegin b + ?k + L \<le> vend b"
    using assms(2,5) by (auto simp: valid_view_def vsize_def)
  have prefix: "encode is_safe ?n b m = (?m1, Present ?b1)"
    using assms(2,5) by (intro encode_sufficient) auto
  have len1: "length ?m1 = length m" using fits lbs by (intro length_write_at) simp
  have v1: "valid_view ?b1 ?m1" using fits assms(2) len1 by (simp add: valid_view_def)
  have s1: "length ?cs \<le> vsize ?b1" using fits lcs by (simp add: vsize_def)
  have elems: "encode_elems is_safe C con ?b1 ?m1 =
      (write_at (vbegin ?b1) ?cs ?m1, Present \<lparr>vbegin = vbegin ?b1 + length ?cs, vend = vend ?b1\<rparr>)"
    using assms(1) v1 s1 by (rule encode_elems_writes)
  have "write_at (vbegin b + length ?bs) ?cs ?m1 = write_at (vbegin b) (?bs @ ?cs) m"
    using fits(1) lbs lcs by (intro write_at_append) simp
  then have joined: "write_at (vbegin ?b1) ?cs ?m1 = write_at (vbegin b) (?bs @ ?cs) m"
    using lbs by simp
  have enc: "array_encode is_safe C con b m =
      (write_at (vbegin b) (?bs @ ?cs) m, Present \<lparr>vbegin = vbegin b + (?k + L), vend = vend b\<rparr>)"
    unfolding array_encode_def n Let_def prefix using elems joined lcs by (simp add: add.assoc)
  have small: "?k + L < 2 ^ 64" using fits(1) assms(3) by simp
  have e: "?n + of_nat ?k = (of_nat (?k + L) :: 64 word)" by simp
  have "unat (of_nat (?k + L) :: 64 word) = (?k + L) mod 2 ^ LENGTH(64)"
    by (rule unat_of_nat)
  also have "\<dots> = ?k + L" using small by simp
  finally have u: "unat (of_nat (?k + L) :: 64 word) = ?k + L" .
  have "unat (?n + of_nat ?k) = ?k + L" unfolding e by (rule u)
  then have skip: "array_encode_skip C con = ?k + L"
    unfolding array_encode_skip_def n Let_def by simp
  show ?thesis using enc skip by simp
qed

theorem array_encode_layout_witness:
  "array_encode True (varint_coder :: 32 word coder) [1, 150, 3] \<lparr>vbegin = 0, vend = 8\<rparr>
       [0, 0, 0, 0, 0, 0, 0, 0] =
     (write_at 0 (varint_bytes (4 :: 64 word) @ concat (map varint_bytes [1, 150, 3 :: 32 word]))
        [0, 0, 0, 0, 0, 0, 0, 0],
      Present \<lparr>vbegin = 5, vend = 8\<rparr>) \<and>
   array_encode_skip (varint_coder :: 32 word coder) [1, 150, 3] = 5"
proof -
  have v: "valid_view \<lparr>vbegin = 0, vend = 8\<rparr> [0, 0, 0, 0, 0, 0, 0, 0]"
    by (simp add: valid_view_def)
  have l: "length [0 :: byte, 0, 0, 0, 0, 0, 0, 0] < 2 ^ 64" by simp
  have s: "(4 :: nat) = sum_list (map (c_encode_skip (varint_coder :: 32 word coder)) [1, 150, 3])"
    by (simp add: varint_coder_def encode_skip.simps)
  have k: "encode_skip (of_nat 4 :: 64 word) + 4 \<le> vsize \<lparr>vbegin = 0, vend = 8\<rparr>"
    by (simp add: encode_skip.simps vsize_def)
  show ?thesis
    using array_encode_layout [OF varint_coder_writes v l s k, of True]
    by (simp add: encode_skip.simps)
qed

section \<open>array\_coder: decode\<close>

text \<open>
  What a run of the loop that returns has established. The loop is left only by its
  condition or by a result of the element decoder that is not a present one.
\<close>

lemma array_decode_loop_result:
  assumes "array_decode_loop is_safe C m origin_b len b con = Some y"
  shows "(\<forall>con' r. y = Present (con', r) \<longrightarrow>
            \<not> (word_of_int (begin_diff r origin_b) :: 64 word) < len \<and>
            (is_safe \<and> decodes_suffix C \<and> vbegin b \<le> vend b \<longrightarrow> suffix_of r b)) \<and>
         (y = Absent \<longrightarrow> (\<exists>b'. c_decode C is_safe b' m = Absent))"
proof -
  let ?P = "\<lambda>is_safe C m origin_b len b con y.
    (\<forall>con' r. y = Present (con', r) \<longrightarrow>
        \<not> (word_of_int (begin_diff r origin_b) :: 64 word) < len \<and>
        (is_safe \<and> decodes_suffix C \<and> vbegin b \<le> vend b \<longrightarrow> suffix_of r b)) \<and>
    (y = Absent \<longrightarrow> (\<exists>b'. c_decode C is_safe b' m = Absent))"
  show ?thesis
  proof (rule array_decode_loop.raw_induct [where P = ?P, OF _ assms], goal_cases)
  case (1 loop is_safe C m origin_b len b con y)
  note IH0 = "1"(1) and body = "1"(2)
  show ?case
  proof (cases "(word_of_int (begin_diff b origin_b) :: 64 word) < len")
    case False
    then have "y = Present (con, b)" using body by simp
    then show ?thesis using False by (simp add: suffix_of_def)
  next
    case True
    show ?thesis
    proof (cases "c_decode C is_safe b m")
      case Undefined
      then have "y = Undefined" using True body by simp
      then show ?thesis by simp
    next
      case Absent
      then have "y = Absent" using True body by simp
      then show ?thesis using Absent by auto
    next
      case (Present p)
      obtain v b' where p: "p = (v, b')" by (cases p)
      have run: "loop is_safe C m origin_b len b' (con @ [v]) = Some y"
        using True Present p body by simp
      note IH = IH0 [OF run]
      have step: "suffix_of b' b" if "is_safe" "decodes_suffix C"
        using that Present p by (auto simp: decodes_suffix_def)
      have "suffix_of r b" if "y = Present (con', r)" "is_safe" "decodes_suffix C" for con' r
      proof -
        have s: "suffix_of b' b" using that by (intro step)
        then have "vbegin b' \<le> vend b'" by (simp add: suffix_of_def)
        then have "suffix_of r b'" using IH that by blast
        then show ?thesis using s by (simp add: suffix_of_def)
      qed
      then show ?thesis using IH by blast
    qed
  qed
  qed
qed

lemma varint_decodes_suffix: "decodes_suffix (varint_coder :: 'a::len word coder)"
proof -
  have "suffix_of r s" if "decode True s m = Present (v :: 'a word, r)" for s m v r
  proof -
    have ne: "vbegin s \<noteq> vend s" using that by (auto simp: decode_def)
    then have "decode_loop True s m 0 (vbegin s) 0 = Present (v, r)"
      using that by (simp add: decode_def)
    then show ?thesis using decode_loop_present by (fastforce simp: suffix_of_def)
  qed
  then show ?thesis by (auto simp: decodes_suffix_def varint_coder_def)
qed


text \<open>The loop, entered after a run, goes on as if entered at its start.\<close>

lemma steps_loop:
  assumes "steps C m b0 len b con"
  shows "array_decode_loop True C m b0 len b0 [] = array_decode_loop True C m b0 len b con"
  using assms
proof (induction rule: steps.induct)
  case start
  show ?case by (rule refl)
next
  case (element b con v b')
  have "array_decode_loop True C m b0 len b con
          = array_decode_loop True C m b0 len b' (con @ [v])"
    using element.hyps(2,3) by (subst array_decode_loop.simps) simp
  with element.IH show ?case by simp
qed

text \<open>What the loop returns, in terms of the run that led there.\<close>

lemma array_decode_loop_trace:
  assumes "array_decode_loop True C m b0 len b con = Some y" and "steps C m b0 len b con"
  shows "(y = Absent \<longrightarrow>
            (\<exists>b' con'. steps C m b0 len b' con' \<and>
               (word_of_int (begin_diff b' b0) :: 64 word) < len \<and>
               c_decode C True b' m = Absent)) \<and>
         (\<forall>con' r. y = Present (con', r) \<longrightarrow>
            steps C m b0 len r con' \<and> \<not> (word_of_int (begin_diff r b0) :: 64 word) < len)"
proof -
  let ?P = "\<lambda>is_safe C m b0 len b con y.
    is_safe \<longrightarrow> steps C m b0 len b con \<longrightarrow>
    (y = Absent \<longrightarrow>
        (\<exists>b' con'. steps C m b0 len b' con' \<and>
           (word_of_int (begin_diff b' b0) :: 64 word) < len \<and>
           c_decode C True b' m = Absent)) \<and>
    (\<forall>con' r. y = Present (con', r) \<longrightarrow>
        steps C m b0 len r con' \<and> \<not> (word_of_int (begin_diff r b0) :: 64 word) < len)"
  have "?P True C m b0 len b con y"
  proof (rule array_decode_loop.raw_induct [where P = ?P, OF _ assms(1)], goal_cases)
    case (1 loop is_safe C m b0 len b con y)
    note IH0 = "1"(1) and body = "1"(2)
    show ?case
    proof (intro impI)
      assume safe: "is_safe" and run: "steps C m b0 len b con"
      show "(y = Absent \<longrightarrow>
              (\<exists>b' con'. steps C m b0 len b' con' \<and>
                 (word_of_int (begin_diff b' b0) :: 64 word) < len \<and>
                 c_decode C True b' m = Absent)) \<and>
            (\<forall>con' r. y = Present (con', r) \<longrightarrow>
              steps C m b0 len r con' \<and> \<not> (word_of_int (begin_diff r b0) :: 64 word) < len)"
      proof (cases "(word_of_int (begin_diff b b0) :: 64 word) < len")
        case False
        then have "y = Present (con, b)" using body by simp
        then show ?thesis using False run by simp
      next
        case True
        show ?thesis
        proof (cases "c_decode C True b m")
          case Undefined
          then have "y = Undefined" using True body safe by simp
          then show ?thesis by simp
        next
          case Absent
          then have "y = Absent" using True body safe by simp
          then show ?thesis using Absent True run by auto
        next
          case (Present p)
          obtain v b' where p: "p = (v, b')" by (cases p)
          have again: "loop is_safe C m b0 len b' (con @ [v]) = Some y"
            using True Present p body safe by simp
          have "steps C m b0 len b' (con @ [v])"
            using run True Present p by (intro steps.element) auto
          then show ?thesis using IH0 [OF again] safe by blast
        qed
      qed
    qed
  qed
  then show ?thesis using assms(2) by blast
qed



section \<open>The remainder is a suffix\<close>

lemma encode_present_suffix:
  assumes "encode is_safe v s m = (m', Present r)"
  shows "suffix_of r s"
proof -
  obtain m1 res where loop: "encode_loop is_safe v (vbegin s) s m = (m1, res)"
    by (cases "encode_loop is_safe v (vbegin s) s m")
  show ?thesis
  proof (cases res)
    case Undefined
    then show ?thesis using assms loop by (simp add: encode_def)
  next
    case Absent
    then show ?thesis using assms loop by (simp add: encode_def)
  next
    case (Present iter)
    then have "r = \<lparr>vbegin = iter, vend = vend s\<rparr>" using assms loop by (auto simp: encode_def)
    moreover have "vbegin s \<le> vbegin s \<and> vbegin s < iter \<and> iter \<le> vend s"
      using loop Present by (intro encode_loop_present) simp
    ultimately show ?thesis by (simp add: suffix_of_def)
  qed
qed

lemma suffix_of_trans: "suffix_of r b \<Longrightarrow> suffix_of b s \<Longrightarrow> suffix_of r s"
  by (simp add: suffix_of_def)

lemma array_decode_present_suffix:
  assumes "decodes_suffix C" and "array_decode True C s m = Some (Present (con, r))"
  shows "suffix_of r s"
proof (cases "decode True s m :: (64 word \<times> view) result")
  case Undefined
  then show ?thesis using assms(2) by (simp add: array_decode_def)
next
  case Absent
  then show ?thesis using assms(2) by (simp add: array_decode_def)
next
  case (Present p)
  obtain len b0 where p: "p = (len, b0)" by (cases p)
  have "c_decode varint_coder True s m = Present (len, b0)"
    using Present p by (simp add: varint_coder_def)
  then have b0: "suffix_of b0 s"
    using varint_decodes_suffix [where ?'a = 64] unfolding decodes_suffix_def by blast
  have run: "array_decode_loop True C m b0 len b0 [] = Some (Present (con, r))"
    using assms(2) Present p by (simp add: array_decode_def)
  from array_decode_loop_result [OF run] have "suffix_of r b0"
    using assms(1) b0 by (auto simp: suffix_of_def)
  then show ?thesis using b0 by (rule suffix_of_trans)
qed

text \<open>
  Claim C10. Whenever \<open>encode\<close> or \<open>decode\<close> of the varint coder, or \<open>decode\<close> of the array
  coder, returns a present result in safe mode, the remainder is a suffix of the input
  view: the same end, and a begin between the begin and the end of the input. For the
  array coder the element coder is any \<open>C\<close> whose own \<open>decode\<close> returns a suffix.
\<close>

theorem safe_remainder_is_suffix:
  fixes v :: "'a::len word" and w :: "'b::len word"
  shows "(encode True v s m = (m', Present r) \<longrightarrow> suffix_of r s) \<and>
         (decode True s m = Present (w, r) \<longrightarrow> suffix_of r s) \<and>
         (decodes_suffix C \<and> array_decode True C s m = Some (Present (con, r)) \<longrightarrow> suffix_of r s)"
proof (intro conjI impI)
  assume "encode True v s m = (m', Present r)"
  then show "suffix_of r s" by (rule encode_present_suffix)
next
  assume "decode True s m = Present (w, r)"
  then have "c_decode varint_coder True s m = Present (w, r)" by (simp add: varint_coder_def)
  then show "suffix_of r s"
    using varint_decodes_suffix [where ?'a = 'b] unfolding decodes_suffix_def by blast
next
  assume "decodes_suffix C \<and> array_decode True C s m = Some (Present (con, r))"
  then show "suffix_of r s" using array_decode_present_suffix by blast
qed

theorem safe_remainder_is_suffix_witness:
  "encode True (150 :: 32 word) \<lparr>vbegin = 1, vend = 4\<rparr> [0, 0, 0, 0]
     = ([0, 0x96, 0x01, 0], Present \<lparr>vbegin = 3, vend = 4\<rparr>) \<and>
   suffix_of \<lparr>vbegin = 3, vend = 4\<rparr> \<lparr>vbegin = 1, vend = 4\<rparr> \<and>
   decode True \<lparr>vbegin = 0, vend = 5\<rparr> [0x04, 0x01, 0x96, 0x01, 0x03]
     = Present (4 :: 64 word, \<lparr>vbegin = 1, vend = 5\<rparr>) \<and>
   suffix_of \<lparr>vbegin = 1, vend = 5\<rparr> \<lparr>vbegin = 0, vend = 5\<rparr> \<and>
   array_decode True (varint_coder :: 32 word coder) \<lparr>vbegin = 0, vend = 5\<rparr>
       [0x04, 0x01, 0x96, 0x01, 0x03]
     = Some (Present ([1, 150, 3], \<lparr>vbegin = 5, vend = 5\<rparr>)) \<and>
   suffix_of \<lparr>vbegin = 5, vend = 5\<rparr> \<lparr>vbegin = 0, vend = 5\<rparr>"
proof -
  have e: "encode True (150 :: 32 word) \<lparr>vbegin = 1, vend = 4\<rparr> [0, 0, 0, 0]
     = ([0, 0x96, 0x01, 0], Present \<lparr>vbegin = 3, vend = 4\<rparr>)"
    by (simp add: encode_def encode_loop.simps derefable_def)
  have d: "decode True \<lparr>vbegin = 0, vend = 5\<rparr> [0x04, 0x01, 0x96, 0x01, 0x03]
     = Present (4 :: 64 word, \<lparr>vbegin = 1, vend = 5\<rparr>)"
    by (simp add: decode_def decode_loop.simps derefable_def shl_defined_def)
  have a: "array_decode True (varint_coder :: 32 word coder) \<lparr>vbegin = 0, vend = 5\<rparr>
       [0x04, 0x01, 0x96, 0x01, 0x03]
     = Some (Present ([1, 150, 3], \<lparr>vbegin = 5, vend = 5\<rparr>))"
    by (simp add: array_decode_def decode_def decode_loop.simps derefable_def shl_defined_def
        array_decode_loop.simps begin_diff_def varint_coder_def)
  have h: "decodes_suffix (varint_coder :: 32 word coder) \<and>
     array_decode True (varint_coder :: 32 word coder) \<lparr>vbegin = 0, vend = 5\<rparr>
       [0x04, 0x01, 0x96, 0x01, 0x03]
     = Some (Present ([1, 150, 3], \<lparr>vbegin = 5, vend = 5\<rparr>))"
    using a by (simp add: varint_decodes_suffix)
  note s1 = safe_remainder_is_suffix [THEN conjunct1, THEN mp, OF e]
  note s2 = safe_remainder_is_suffix [THEN conjunct2, THEN conjunct1, THEN mp, OF d]
  note s3 = safe_remainder_is_suffix [THEN conjunct2, THEN conjunct2, THEN mp, OF h]
  show ?thesis
    by (rule conjI [OF e conjI [OF s1 conjI [OF d conjI [OF s2 conjI [OF a s3]]]]])
qed

end
